theory Spec2Isabelle
  imports Complex_Main
begin

section \<open>Data model\<close>

text \<open>
  The host's raw hierarchy (\<^verbatim>\<open>TTree\<close> / \<^verbatim>\<open>TTreeNode\<close> of \<^verbatim>\<open>types.ts\<close>). A
  \<^verbatim>\<open>TTree\<close> is a \<^verbatim>\<open>TTreeNode\<close> whose children are present; the builder casts
  one to the other, so both are the same type here. An absent \<^verbatim>\<open>children\<close> field
  is \<open>None\<close>.
\<close>

datatype TreeNodeType = directory | file'

datatype TTreeNode =
  TTreeNode (name: string) (id': string) (type': TreeNodeType) (children: "TTreeNode list option")

type_synonym TTree = TTreeNode

text \<open>The payload handed to the host when a drag completes (\<^verbatim>\<open>DragEndPayload\<close>).\<close>

record DragEndPayload =
  items :: "TTreeNode list"
  parent :: TTreeNode
  children :: "TTreeNode list"
  insertAt :: int

datatype DropIntent = above | below | inside

record HoveredParent =
  parentId :: "string option"
  parentDepth :: "int option"
  index :: "int option"
  childIndex :: "int option"
  dropIntent :: "DropIntent option"

text \<open>
  \<^verbatim>\<open>InternalTreeNode\<close>. The children are owned by the node. The \<^verbatim>\<open>parent\<close> field
  is a back-reference to an object that is completed (its \<^verbatim>\<open>children\<close> assigned)
  only after the child has captured it, so it is an address into a node table, and
  \<^verbatim>\<open>node.parent\<close> is a lookup in that table.
\<close>

type_synonym ref = nat

datatype InternalTreeNode =
  InternalTreeNode (item: TTreeNode) (children: "InternalTreeNode list option")
    (parent: "ref option") (depth: int)

type_synonym nodes = "ref \<rightharpoonup> InternalTreeNode"

record SelectableTreeNode =
  node :: InternalTreeNode
  index :: int

record TreeStore =
  selectedIds :: "string list"
  anchorId :: "string option"
  collapsed :: "string \<rightharpoonup> bool"
  draggingIds :: "string list"
  hoveredParent :: HoveredParent

section \<open>The store (\<^verbatim>\<open>store.ts\<close>)\<close>

definition initialHoveredParent :: HoveredParent where
  "initialHoveredParent =
     \<lparr>parentId = None, parentDepth = None, HoveredParent.index = None,
      childIndex = None, dropIntent = None\<rparr>"

definition initialStore :: TreeStore where
  "initialStore =
     \<lparr>selectedIds = [], anchorId = None, collapsed = Map.empty, draggingIds = [],
      hoveredParent = initialHoveredParent\<rparr>"

definition setSelectedIds :: "string list \<Rightarrow> TreeStore \<Rightarrow> TreeStore" where
  "setSelectedIds ids st = st\<lparr>selectedIds := ids\<rparr>"

definition setAnchorId :: "string option \<Rightarrow> TreeStore \<Rightarrow> TreeStore" where
  "setAnchorId i st = st\<lparr>anchorId := i\<rparr>"

text \<open>
  The collapse map as the data model reads it: an id is collapsed when the map holds
  true for it, and an id without an entry is expanded.
\<close>

definition isCollapsed :: "(string \<rightharpoonup> bool) \<Rightarrow> string \<Rightarrow> bool" where
  "isCollapsed c i = (case c i of None \<Rightarrow> False | Some b \<Rightarrow> b)"

text \<open>
  The store keeps the collapse map in a plain object (\<^verbatim>\<open>collapsed: {}\<close>, then object
  literals \<^verbatim>\<open>{...state.collapsed, [id]: ...}\<close>), and a plain object inherits the
  properties of \<^verbatim>\<open>Object.prototype\<close>. The map \<open>string \<rightharpoonup> bool\<close> holds the object's own
  entries; these are the inherited names.
\<close>

definition objectPrototypeKeys :: "string list" where
  "objectPrototypeKeys =
     [''constructor'', ''__defineGetter__'', ''__defineSetter__'', ''hasOwnProperty'',
      ''__lookupGetter__'', ''__lookupSetter__'', ''isPrototypeOf'', ''propertyIsEnumerable'',
      ''toString'', ''valueOf'', ''__proto__'', ''toLocaleString'']"

text \<open>
  The expression \<^verbatim>\<open>collapsed[id]\<close> used as a condition, as in
  \<^verbatim>\<open>collapsed[id] ?? false\<close> and \<^verbatim>\<open>!state.collapsed[id]\<close>. An own entry gives its
  boolean. Without an own entry an inherited name gives the inherited function or object,
  which is not nullish and is truthy; any other id gives \<^verbatim>\<open>undefined\<close>, which \<^verbatim>\<open>??\<close>
  replaces by false.
\<close>

definition collapsedFlag :: "(string \<rightharpoonup> bool) \<Rightarrow> string \<Rightarrow> bool" where
  "collapsedFlag c i = (case c i of None \<Rightarrow> i \<in> set objectPrototypeKeys | Some b \<Rightarrow> b)"

text \<open>\<^verbatim>\<open>[id]: !state.collapsed[id]\<close>.\<close>

definition toggleCollapsed :: "string \<Rightarrow> TreeStore \<Rightarrow> TreeStore" where
  "toggleCollapsed i st =
     st\<lparr>collapsed := (collapsed st)(i \<mapsto> \<not> collapsedFlag (collapsed st) i)\<rparr>"

definition setCollapsed :: "string \<Rightarrow> bool \<Rightarrow> TreeStore \<Rightarrow> TreeStore" where
  "setCollapsed i b st = st\<lparr>collapsed := (collapsed st)(i \<mapsto> b)\<rparr>"

definition setDraggingIds :: "string list \<Rightarrow> TreeStore \<Rightarrow> TreeStore" where
  "setDraggingIds ids st = st\<lparr>draggingIds := ids\<rparr>"

definition setHoveredParent :: "HoveredParent \<Rightarrow> TreeStore \<Rightarrow> TreeStore" where
  "setHoveredParent hp st = st\<lparr>hoveredParent := hp\<rparr>"

definition clearDragState :: "TreeStore \<Rightarrow> TreeStore" where
  "clearDragState st = st\<lparr>draggingIds := [], hoveredParent := initialHoveredParent\<rparr>"

section \<open>Array helpers\<close>

text \<open>\<^verbatim>\<open>Array.prototype.findIndex\<close>: the first position that satisfies the test, or -1.\<close>

fun findIndex :: "('a \<Rightarrow> bool) \<Rightarrow> 'a list \<Rightarrow> int" where
  "findIndex P [] = -1"
| "findIndex P (x # xs) =
     (if P x then 0 else (let i = findIndex P xs in if i = -1 then -1 else i + 1))"

text \<open>
  \<^verbatim>\<open>Array.prototype.slice(start, end)\<close>: a negative bound counts from the end, and
  both bounds are clamped to the array.
\<close>

definition slice :: "'a list \<Rightarrow> int \<Rightarrow> int \<Rightarrow> 'a list" where
  "slice xs start end' =
     (let len = int (length xs);
          k = (if start < 0 then max (len + start) 0 else min start len);
          final = (if end' < 0 then max (len + end') 0 else min end' len)
      in take (nat (final - k)) (drop (nat k) xs))"

text \<open>\<^verbatim>\<open>splice(i, 1)\<close> at a position found by \<^verbatim>\<open>findIndex\<close>.\<close>

definition splice1 :: "'a list \<Rightarrow> int \<Rightarrow> 'a list" where
  "splice1 xs i = take (nat i) xs @ drop (nat i + 1) xs"

text \<open>A value of type \<^verbatim>\<open>string | null\<close> used as a condition: null and the empty string are falsy.\<close>

definition truthy :: "string option \<Rightarrow> bool" where
  "truthy s = (case s of None \<Rightarrow> False | Some x \<Rightarrow> x \<noteq> [])"

section \<open>Tree model builder (\<^verbatim>\<open>utils.ts\<close>)\<close>

text \<open>
  \<^verbatim>\<open>buildInternalTree\<close> creates the node object, hands it to the calls that build
  the children, and only then assigns \<^verbatim>\<open>internalNode.children\<close>. The state threaded
  through is the node table and the next free address: the node is entered in the table
  when it is created (without children) and entered again, complete, once the children
  are built, so every child's \<^verbatim>\<open>parent\<close> address reads the completed parent.
\<close>

fun buildInternalTree ::
    "TTreeNode \<Rightarrow> ref option \<Rightarrow> int \<Rightarrow> nodes \<times> ref \<Rightarrow> InternalTreeNode \<times> (nodes \<times> ref)"
  and buildChildren ::
    "TTreeNode list \<Rightarrow> ref option \<Rightarrow> int \<Rightarrow> nodes \<times> ref \<Rightarrow> InternalTreeNode list \<times> (nodes \<times> ref)"
where
  "buildInternalTree (TTreeNode nm i ty cs) par dep (tbl, a) =
     (let raw = TTreeNode nm i ty cs;
          internalNode = InternalTreeNode raw None par dep;
          s = (tbl(a \<mapsto> internalNode), a + 1)
      in case cs of
           None \<Rightarrow> (internalNode, s)
         | Some kids \<Rightarrow>
             if length kids > 0 then
               (let (built, (tbl', next)) = buildChildren kids (Some a) (dep + 1) s;
                    internalNode' = InternalTreeNode raw (Some built) par dep
                in (internalNode', (tbl'(a \<mapsto> internalNode'), next)))
             else (internalNode, s))"
| "buildChildren [] par dep s = ([], s)"
| "buildChildren (child # rest) par dep s =
     (let (n, s') = buildInternalTree child par dep s;
          (ns, s'') = buildChildren rest par dep s'
      in (n # ns, s''))"

text \<open>\<^verbatim>\<open>node.parent\<close>, read through the node table.\<close>

definition parentOf :: "nodes \<Rightarrow> InternalTreeNode \<Rightarrow> InternalTreeNode option" where
  "parentOf tbl n = (case parent n of None \<Rightarrow> None | Some a \<Rightarrow> tbl a)"

text \<open>
  \<^verbatim>\<open>hasAncestor\<close> is a \<^verbatim>\<open>while\<close> loop up the parent chain. On a table whose parent
  addresses form a cycle it does not return, which is the value \<open>None\<close>.
\<close>

partial_function (option) hasAncestor ::
    "nodes \<Rightarrow> InternalTreeNode option \<Rightarrow> string \<Rightarrow> bool option" where
  "hasAncestor tbl current ancestorId =
     (case current of
        None \<Rightarrow> Some False
      | Some c \<Rightarrow>
          if id' (item c) = ancestorId then Some True
          else hasAncestor tbl (parentOf tbl c) ancestorId)"

declare hasAncestor.simps [code]

definition getChildIndex :: "nodes \<Rightarrow> InternalTreeNode \<Rightarrow> int" where
  "getChildIndex tbl n =
     (case parentOf tbl n of
        None \<Rightarrow> 0
      | Some p \<Rightarrow>
          (let siblings = (case children p of None \<Rightarrow> [] | Some cs \<Rightarrow> cs);
               i = findIndex (\<lambda>child. id' (item child) = id' (item n)) siblings
           in if i = -1 then 0 else i))"

fun findNodeById :: "InternalTreeNode \<Rightarrow> string \<Rightarrow> InternalTreeNode option"
  and findNodeById_children :: "InternalTreeNode list \<Rightarrow> string \<Rightarrow> InternalTreeNode option"
where
  "findNodeById (InternalTreeNode it cs p d) i =
     (if id' it = i then Some (InternalTreeNode it cs p d)
      else case cs of
             None \<Rightarrow> None
           | Some kids \<Rightarrow> findNodeById_children kids i)"
| "findNodeById_children [] i = None"
| "findNodeById_children (child # rest) i =
     (case findNodeById child i of
        Some found \<Rightarrow> Some found
      | None \<Rightarrow> findNodeById_children rest i)"

section \<open>Flattener (\<^verbatim>\<open>useSelectableItems\<close>)\<close>

text \<open>
  \<^verbatim>\<open>walk\<close> pushes onto the closure variable \<^verbatim>\<open>items\<close> and increments \<^verbatim>\<open>index\<close>;
  both are the state passed along here (\<open>acc\<close> and \<open>idx\<close>).
\<close>

fun walk ::
    "(string \<rightharpoonup> bool) \<Rightarrow> InternalTreeNode \<Rightarrow> SelectableTreeNode list \<times> int
       \<Rightarrow> SelectableTreeNode list \<times> int"
  and walk_children ::
    "(string \<rightharpoonup> bool) \<Rightarrow> InternalTreeNode list \<Rightarrow> SelectableTreeNode list \<times> int
       \<Rightarrow> SelectableTreeNode list \<times> int"
where
  "walk c (InternalTreeNode it cs p d) (acc, idx) =
     (let n = InternalTreeNode it cs p d;
          s = (if d > 0 then (acc @ [\<lparr>node = n, index = idx\<rparr>], idx + 1)
               else (acc, idx));
          isCollapsed' = collapsedFlag c (id' it)
      in case cs of
           None \<Rightarrow> s
         | Some kids \<Rightarrow> if d = 0 \<or> \<not> isCollapsed' then walk_children c kids s else s)"
| "walk_children c [] s = s"
| "walk_children c (child # rest) s = walk_children c rest (walk c child s)"

definition useSelectableItems ::
    "InternalTreeNode \<Rightarrow> (string \<rightharpoonup> bool) \<Rightarrow> SelectableTreeNode list" where
  "useSelectableItems root' c = fst (walk c root' ([], 0))"

section \<open>Selection controller (\<^verbatim>\<open>handleClick\<close> of \<^verbatim>\<open>TreeNode.tsx\<close>)\<close>

record MouseEvent =
  shiftKey :: bool
  metaKey :: bool
  ctrlKey :: bool

text \<open>
  The click handler of the tree node rendered for the item with id \<open>itemId\<close>. The
  component reads \<^verbatim>\<open>anchorId\<close> from the store and receives the flat sequence as a prop.
\<close>

definition handleClick ::
    "SelectableTreeNode list \<Rightarrow> string \<Rightarrow> MouseEvent \<Rightarrow> TreeStore \<Rightarrow> TreeStore" where
  "handleClick selectableItems itemId e st =
     (let anchorIndex =
            findIndex (\<lambda>s. Some (id' (item (node s))) = anchorId st) selectableItems;
          clickIndex = findIndex (\<lambda>s. id' (item (node s)) = itemId) selectableItems
      in if shiftKey e \<and> truthy (anchorId st) \<and> anchorIndex \<noteq> -1 \<and> clickIndex \<noteq> -1 then
           (let start = min anchorIndex clickIndex;
                end' = max anchorIndex clickIndex;
                rangeIds = map (\<lambda>s. id' (item (node s))) (slice selectableItems start (end' + 1))
            in setSelectedIds rangeIds st)
         else if metaKey e \<or> ctrlKey e then
           (let currentIds = selectedIds st
            in if itemId \<in> set currentIds
               then setSelectedIds (filter (\<lambda>i. i \<noteq> itemId) currentIds) st
               else setSelectedIds (currentIds @ [itemId]) st)
         else setAnchorId (Some itemId) (setSelectedIds [itemId] st))"

section \<open>Drag handlers (\<^verbatim>\<open>Tree.tsx\<close>)\<close>

text \<open>
  \<^verbatim>\<open>const internalRoot = useMemo(() => buildInternalTree(data), [data])\<close>: the root node
  and the node table that one call of the builder on the raw tree leaves.
\<close>

definition internalRootOf :: "TTree \<Rightarrow> InternalTreeNode" where
  "internalRootOf data = fst (buildInternalTree data None 0 (Map.empty, 0))"

definition nodesOf :: "TTree \<Rightarrow> nodes" where
  "nodesOf data = fst (snd (buildInternalTree data None 0 (Map.empty, 0)))"

subsection \<open>Drag start\<close>

definition handleDragStart :: "string \<Rightarrow> TreeStore \<Rightarrow> TreeStore" where
  "handleDragStart activeId st =
     (if activeId \<in> set (selectedIds st) then setDraggingIds (selectedIds st) st
      else setAnchorId (Some activeId) (setSelectedIds [activeId] (setDraggingIds [activeId] st)))"

subsection \<open>Drag move\<close>

text \<open>
  The ratio is the result of the handler's floating-point expression
  \<^verbatim>\<open>(activeRect.top + activeRect.height / 2 - overRect.top) / overRect.height\<close>. Only its
  comparisons with the constants 0.25, 0.5 and 0.75 are used, and those are exact; so the
  ratio is an input here: \<open>NaN\<close>, for which every comparison is false, or a number
  (an infinite ratio compares like any number beyond the constants).
\<close>

datatype number = NaN | Num real

fun num_lt :: "number \<Rightarrow> real \<Rightarrow> bool" where
  "num_lt NaN y = False"
| "num_lt (Num x) y = (x < y)"

fun num_gt :: "number \<Rightarrow> real \<Rightarrow> bool" where
  "num_gt NaN y = False"
| "num_gt (Num x) y = (x > y)"

text \<open>
  A drag-move event: \<open>over\<close> is \<^verbatim>\<open>over.id\<close> (\<open>None\<close> when \<^verbatim>\<open>over\<close> is null), and
  \<open>ratio\<close> is \<open>None\<close> when \<^verbatim>\<open>active.rect.current.translated\<close> is null.
\<close>

record DragMoveEvent =
  over :: "string option"
  ratio :: "number option"

text \<open>The four local variables that the zone detection assigns.\<close>

record DropTarget =
  targetParent :: "InternalTreeNode option"
  targetChildIndex :: int
  intent :: DropIntent
  flatIndex :: int

definition resolveTarget ::
    "nodes \<Rightarrow> (string \<rightharpoonup> bool) \<Rightarrow> SelectableTreeNode \<Rightarrow> number \<Rightarrow> DropTarget" where
  "resolveTarget tbl c overItem r =
     (let overNode = node overItem;
          isOverDirectory = (type' (item overNode) = directory);
          isOverCollapsed = collapsedFlag c (id' (item overNode));
          isOverExpanded = (isOverDirectory \<and> \<not> isOverCollapsed);
          hasChildren = (case children overNode of None \<Rightarrow> False | Some cs \<Rightarrow> length cs > 0)
      in if \<not> isOverDirectory then
           (if num_lt r 0.5 then
              \<lparr>targetParent = parentOf tbl overNode, targetChildIndex = getChildIndex tbl overNode,
               intent = above, flatIndex = index overItem\<rparr>
            else
              \<lparr>targetParent = parentOf tbl overNode,
               targetChildIndex = getChildIndex tbl overNode + 1,
               intent = below, flatIndex = index overItem + 1\<rparr>)
         else
           (if num_lt r 0.25 then
              \<lparr>targetParent = parentOf tbl overNode, targetChildIndex = getChildIndex tbl overNode,
               intent = above, flatIndex = index overItem\<rparr>
            else if num_gt r 0.75 \<and> \<not> isOverExpanded then
              \<lparr>targetParent = parentOf tbl overNode,
               targetChildIndex = getChildIndex tbl overNode + 1,
               intent = below, flatIndex = index overItem + 1\<rparr>
            else
              \<lparr>targetParent = Some overNode, targetChildIndex = 0, intent = inside,
               flatIndex = (if isOverExpanded \<and> hasChildren then index overItem + 1
                            else index overItem)\<rparr>))"

text \<open>
  The validation loop \<^verbatim>\<open>for (const dragId of currentDraggingIds)\<close>: \<open>Some True\<close> when
  it leaves the handler through its \<^verbatim>\<open>return\<close>.
\<close>

fun anyHasAncestor :: "nodes \<Rightarrow> InternalTreeNode option \<Rightarrow> string list \<Rightarrow> bool option" where
  "anyHasAncestor tbl tp [] = Some False"
| "anyHasAncestor tbl tp (dragId # rest) =
     (case hasAncestor tbl tp dragId of
        None \<Rightarrow> None
      | Some True \<Rightarrow> Some True
      | Some False \<Rightarrow> anyHasAncestor tbl tp rest)"

text \<open>
  The handler closes over \<^verbatim>\<open>internalRoot\<close> and over the flat sequence that the
  component derives from it and the store's collapse map. \<open>None\<close>: the handler does not
  return.
\<close>

definition handleDragMove ::
    "nodes \<Rightarrow> InternalTreeNode \<Rightarrow> DragMoveEvent \<Rightarrow> TreeStore \<Rightarrow> TreeStore option" where
  "handleDragMove tbl internalRoot ev st =
     (let selectableItems = useSelectableItems internalRoot (collapsed st)
      in case over ev of
           None \<Rightarrow>
             Some (setHoveredParent
               \<lparr>parentId = None, parentDepth = None, HoveredParent.index = None,
                childIndex = None, dropIntent = None\<rparr> st)
         | Some overId \<Rightarrow>
             if overId = ''__catch_zone_start__'' then
               Some (setHoveredParent
                 \<lparr>parentId = Some (id' (item internalRoot)),
                  parentDepth = Some (depth internalRoot), HoveredParent.index = Some 0,
                  childIndex = Some 0, dropIntent = Some above\<rparr> st)
             else if overId = ''__catch_zone_end__'' then
               (let lastIndex = int (length selectableItems);
                    rootChildCount =
                      (case children internalRoot of None \<Rightarrow> 0 | Some cs \<Rightarrow> int (length cs))
                in Some (setHoveredParent
                     \<lparr>parentId = Some (id' (item internalRoot)),
                      parentDepth = Some (depth internalRoot),
                      HoveredParent.index = Some lastIndex,
                      childIndex = Some rootChildCount, dropIntent = Some below\<rparr> st))
             else
               (case find (\<lambda>s. id' (item (node s)) = overId) selectableItems of
                  None \<Rightarrow> Some st
                | Some overItem \<Rightarrow>
                    (case ratio ev of
                       None \<Rightarrow> Some st
                     | Some r \<Rightarrow>
                         (let t = resolveTarget tbl (collapsed st) overItem r
                          in case (case targetParent t of
                                     None \<Rightarrow> Some False
                                   | Some tp \<Rightarrow> anyHasAncestor tbl (Some tp) (draggingIds st)) of
                               None \<Rightarrow> None
                             | Some True \<Rightarrow> Some st
                             | Some False \<Rightarrow>
                                 Some (setHoveredParent
                                   \<lparr>parentId = map_option (\<lambda>tp. id' (item tp)) (targetParent t),
                                    parentDepth = map_option depth (targetParent t),
                                    HoveredParent.index = Some (flatIndex t),
                                    childIndex = Some (targetChildIndex t),
                                    dropIntent = Some (intent t)\<rparr> st)))))"

subsection \<open>Drag end and drag cancel\<close>

text \<open>\<^verbatim>\<open>draggedNodes.filter(...)\<close>; the second conjunct is evaluated only when the first holds.\<close>

fun filterValid ::
    "nodes \<Rightarrow> InternalTreeNode \<Rightarrow> InternalTreeNode list \<Rightarrow> InternalTreeNode list option" where
  "filterValid tbl tp [] = Some []"
| "filterValid tbl tp (n # ns) =
     (case (if id' (item n) \<noteq> id' (item tp)
            then map_option Not (hasAncestor tbl (Some tp) (id' (item n)))
            else Some False) of
        None \<Rightarrow> None
      | Some keep \<Rightarrow>
          (case filterValid tbl tp ns of
             None \<Rightarrow> None
           | Some rest \<Rightarrow> Some (if keep then n # rest else rest)))"

text \<open>The loop that removes the dragged nodes from the copy of the target's children.\<close>

fun removeDragged ::
    "InternalTreeNode list \<Rightarrow> InternalTreeNode list \<times> int \<Rightarrow> InternalTreeNode list \<times> int" where
  "removeDragged [] s = s"
| "removeDragged (n # ns) (currentChildren, ins) =
     (let existingIndex = findIndex (\<lambda>child. id' (item child) = id' (item n)) currentChildren
      in if existingIndex \<noteq> -1 then
           removeDragged ns
             (splice1 currentChildren existingIndex,
              if existingIndex < ins then ins - 1 else ins)
         else removeDragged ns (currentChildren, ins))"

text \<open>
  What \<^verbatim>\<open>handleDragEnd\<close> passes to \<^verbatim>\<open>onDragEnd\<close>, after the store has been cleared:
  \<open>Some None\<close> when it returns without a call, \<open>Some (Some p)\<close> when it calls with the
  payload \<open>p\<close>, \<open>None\<close> when it does not return. \<open>overPresent\<close> is \<^verbatim>\<open>event.over\<close> being
  non-null.
\<close>

definition dragEndPayload ::
    "nodes \<Rightarrow> InternalTreeNode \<Rightarrow> bool \<Rightarrow> TreeStore \<Rightarrow> DragEndPayload option option" where
  "dragEndPayload tbl internalRoot overPresent st =
     (let selectableItems = useSelectableItems internalRoot (collapsed st);
          hp = hoveredParent st;
          currentDraggingIds = draggingIds st
      in if \<not> overPresent \<or> \<not> truthy (parentId hp) \<or> childIndex hp = None then Some None
         else
           (case findNodeById internalRoot (the (parentId hp)) of
              None \<Rightarrow> Some None
            | Some tp \<Rightarrow>
                (let draggedNodes =
                       List.map_filter
                         (\<lambda>i. map_option node
                                 (find (\<lambda>s. id' (item (node s)) = i) selectableItems))
                         currentDraggingIds
                 in if length draggedNodes = 0 then Some None
                    else
                      (case filterValid tbl tp draggedNodes of
                         None \<Rightarrow> None
                       | Some validNodes \<Rightarrow>
                           if length validNodes = 0 then Some None
                           else
                             (let (currentChildren, ins) =
                                    removeDragged validNodes
                                      (case children tp of None \<Rightarrow> [] | Some cs \<Rightarrow> cs,
                                       the (childIndex hp))
                              in Some (Some
                                   \<lparr>items = map item validNodes, DragEndPayload.parent = item tp,
                                    DragEndPayload.children = map item currentChildren,
                                    insertAt = ins\<rparr>))))))"

text \<open>
  \<^verbatim>\<open>handleDragEnd\<close> reads the drag state, clears it in the store, and then resolves
  the payload from what it read.
\<close>

definition handleDragEnd ::
    "nodes \<Rightarrow> InternalTreeNode \<Rightarrow> bool \<Rightarrow> TreeStore
       \<Rightarrow> TreeStore \<times> DragEndPayload option option" where
  "handleDragEnd tbl internalRoot overPresent st =
     (clearDragState st, dragEndPayload tbl internalRoot overPresent st)"

definition handleDragCancel :: "TreeStore \<Rightarrow> TreeStore" where
  "handleDragCancel st = clearDragState st"

section \<open>The scenario tree\<close>

text \<open>
  The tree of the end-to-end scenario, \<^verbatim>\<open>root -> [A(dir, [A1, A2]), B(file)]\<close>, on
  which the theorems below are instantiated.
\<close>

definition nodeA1 :: TTreeNode where "nodeA1 = TTreeNode ''A1'' ''A1'' file' None"
definition nodeA2 :: TTreeNode where "nodeA2 = TTreeNode ''A2'' ''A2'' file' None"
definition nodeA :: TTreeNode where
  "nodeA = TTreeNode ''A'' ''A'' directory (Some [nodeA1, nodeA2])"
definition nodeB :: TTreeNode where "nodeB = TTreeNode ''B'' ''B'' file' None"
definition scenario :: TTree where
  "scenario = TTreeNode ''root'' ''root'' directory (Some [nodeA, nodeB])"

definition scenarioRoot :: InternalTreeNode where
  "scenarioRoot = internalRootOf scenario"

definition scenarioNodes :: nodes where
  "scenarioNodes = nodesOf scenario"

text \<open>The store at the moment \<^verbatim>\<open>B\<close> is released over the middle of \<^verbatim>\<open>A\<close>.\<close>

definition droppingBIntoA :: TreeStore where
  "droppingBIntoA =
     initialStore
       \<lparr>selectedIds := [''B''], anchorId := Some ''B'', draggingIds := [''B''],
        hoveredParent :=
          \<lparr>parentId = Some ''A'', parentDepth = Some 1, HoveredParent.index = Some 1,
           childIndex = Some 0, dropIntent = Some inside\<rparr>\<rparr>"

text \<open>The same scenario after \<^verbatim>\<open>A\<close> has been collapsed, with \<^verbatim>\<open>A1\<close> selected before.\<close>

definition collapsedA :: "string \<rightharpoonup> bool" where
  "collapsedA = [''A'' \<mapsto> True]"

definition anchoredAtA1 :: TreeStore where
  "anchoredAtA1 =
     initialStore\<lparr>selectedIds := [''A1''], anchorId := Some ''A1'', collapsed := collapsedA\<rparr>"

definition shiftClick :: MouseEvent where
  "shiftClick = \<lparr>shiftKey = True, metaKey = False, ctrlKey = False\<rparr>"

text \<open>A tree in which one item has the empty string as its id.\<close>

definition blankIdTree :: TTree where
  "blankIdTree =
     TTreeNode ''root'' ''root'' directory (Some [TTreeNode ''untitled'' '''' file' None, nodeB])"

definition blankIdItems :: "SelectableTreeNode list" where
  "blankIdItems =
     useSelectableItems (internalRootOf blankIdTree) Map.empty"

definition plainClick :: MouseEvent where
  "plainClick = \<lparr>shiftKey = False, metaKey = False, ctrlKey = False\<rparr>"

text \<open>
  A tree in which a directory has the id \<^verbatim>\<open>constructor\<close>, a name that every plain
  object inherits: \<^verbatim>\<open>root -> [constructor(dir, [c1]), B(file)]\<close>.
\<close>

definition nodeC1 :: TTreeNode where "nodeC1 = TTreeNode ''c1'' ''c1'' file' None"

definition nodeConstructor :: TTreeNode where
  "nodeConstructor = TTreeNode ''constructor'' ''constructor'' directory (Some [nodeC1])"

definition inheritedKeyTree :: TTree where
  "inheritedKeyTree = TTreeNode ''root'' ''root'' directory (Some [nodeConstructor, nodeB])"

text \<open>
  Dragging \<^verbatim>\<open>B\<close> with nothing collapsed, and the move event that has the dragged item's
  centre in the bottom quarter of the directory \<^verbatim>\<open>constructor\<close>.
\<close>

definition draggingB :: TreeStore where
  "draggingB =
     initialStore\<lparr>selectedIds := [''B''], anchorId := Some ''B'', draggingIds := [''B'']\<rparr>"

definition overConstructorBottom :: DragMoveEvent where
  "overConstructorBottom = \<lparr>over = Some ''constructor'', ratio = Some (Num 0.9)\<rparr>"

text \<open>
  Dragging the directory \<^verbatim>\<open>A\<close> of the scenario, with a drop location below \<^verbatim>\<open>B\<close>
  stored from an earlier move, and the move event that has the dragged item's centre in
  the upper half of \<^verbatim>\<open>A1\<close>.
\<close>

definition draggingA :: TreeStore where
  "draggingA =
     initialStore
       \<lparr>selectedIds := [''A''], anchorId := Some ''A'', draggingIds := [''A''],
        hoveredParent :=
          \<lparr>parentId = Some ''root'', parentDepth = Some 0, HoveredParent.index = Some 3,
           childIndex = Some 1, dropIntent = Some below\<rparr>\<rparr>"

definition overA1Top :: DragMoveEvent where
  "overA1Top = \<lparr>over = Some ''A1'', ratio = Some (Num 0.3)\<rparr>"

text \<open>
  A parent with five children, \<^verbatim>\<open>root -> [c0, c1, c2, c3, c4]\<close>, and two drops inside
  it: \<^verbatim>\<open>c2\<close> released above \<^verbatim>\<open>c0\<close> (raw position 0), and \<^verbatim>\<open>c0\<close> released below
  \<^verbatim>\<open>c3\<close> (raw position 4), with the payloads they emit.
\<close>

definition fileNode :: "string \<Rightarrow> TTreeNode" where
  "fileNode i = TTreeNode i i file' None"

definition fiveTree :: TTree where
  "fiveTree =
     TTreeNode ''root'' ''root'' directory
       (Some [fileNode ''c0'', fileNode ''c1'', fileNode ''c2'', fileNode ''c3'', fileNode ''c4''])"


definition dropC0After3 :: TreeStore where
  "dropC0After3 =
     initialStore
       \<lparr>selectedIds := [''c0''], anchorId := Some ''c0'', draggingIds := [''c0''],
        hoveredParent :=
          \<lparr>parentId = Some ''root'', parentDepth = Some 0, HoveredParent.index = Some 4,
           childIndex = Some 4, dropIntent = Some below\<rparr>\<rparr>"


definition payloadC0After3 :: DragEndPayload where
  "payloadC0After3 =
     \<lparr>items = [fileNode ''c0''], DragEndPayload.parent = fiveTree,
      DragEndPayload.children = [fileNode ''c1'', fileNode ''c2'', fileNode ''c3'', fileNode ''c4''],
      insertAt = 3\<rparr>"

section \<open>Specification-side notions\<close>

text \<open>The ids of a flat sequence, in order.\<close>

definition flatIds :: "SelectableTreeNode list \<Rightarrow> string list" where
  "flatIds xs = map (\<lambda>s. id' (item (node s))) xs"

text \<open>The position at which an id is located in the flat sequence (an O(n) scan), or -1.\<close>

definition indexOfId :: "SelectableTreeNode list \<Rightarrow> string \<Rightarrow> int" where
  "indexOfId xs i = findIndex (\<lambda>s. id' (item (node s)) = i) xs"

text \<open>
  The range selection as the specification words it: the ids of all visible entries whose
  flat index lies between the smaller and the larger of the two located positions.
\<close>

definition spec_rangeIds :: "SelectableTreeNode list \<Rightarrow> string \<Rightarrow> string \<Rightarrow> string list" where
  "spec_rangeIds xs a b =
     flatIds (filter (\<lambda>s. min (indexOfId xs a) (indexOfId xs b) \<le> index s \<and>
                          index s \<le> max (indexOfId xs a) (indexOfId xs b)) xs)"

section \<open>The flat sequence as the specification words it\<close>

text \<open>
  Every node below a given one with the ids of its ancestors (outermost first, the
  synthetic root left out), in depth-first pre-order: a node comes before its children,
  and the children come in their order.
\<close>

fun spec_preorder :: "string list \<Rightarrow> TTreeNode \<Rightarrow> (string list \<times> TTreeNode) list"
  and spec_preorder_list :: "string list \<Rightarrow> TTreeNode list \<Rightarrow> (string list \<times> TTreeNode) list"
where
  "spec_preorder anc (TTreeNode nm i ty cs) =
     (anc, TTreeNode nm i ty cs) #
       (case cs of None \<Rightarrow> [] | Some kids \<Rightarrow> spec_preorder_list (anc @ [i]) kids)"
| "spec_preorder_list anc [] = []"
| "spec_preorder_list anc (k # ks) = spec_preorder anc k @ spec_preorder_list anc ks"

text \<open>An ancestor chain is uncollapsed when none of its ids reads collapsed.\<close>

definition spec_chainExpanded :: "(string \<rightharpoonup> bool) \<Rightarrow> string list \<Rightarrow> bool" where
  "spec_chainExpanded c anc = list_all (\<lambda>a. \<not> isCollapsed c a) anc"

text \<open>
  The visible nodes: of all nodes other than the root, in pre-order, those whose whole
  ancestor chain is uncollapsed.
\<close>

definition spec_visible :: "(string \<rightharpoonup> bool) \<Rightarrow> TTree \<Rightarrow> (string list \<times> TTreeNode) list" where
  "spec_visible c data =
     filter (\<lambda>e. spec_chainExpanded c (fst e))
       (case TTreeNode.children data of None \<Rightarrow> [] | Some kids \<Rightarrow> spec_preorder_list [] kids)"

text \<open>
  What identifies the node of an entry: its raw item (which holds the whole raw subtree)
  and its depth; on the specification side, the node and the length of its chain plus one.
\<close>

definition entryView :: "SelectableTreeNode \<Rightarrow> TTreeNode \<times> int" where
  "entryView s = (item (node s), depth (node s))"

definition specView :: "string list \<times> TTreeNode \<Rightarrow> TTreeNode \<times> int" where
  "specView e = (snd e, int (length (fst e)) + 1)"

text \<open>The flattener's counter is the number of entries pushed, and each entry carries its position.\<close>

definition counted :: "SelectableTreeNode list \<times> int \<Rightarrow> bool" where
  "counted st \<longleftrightarrow> snd st = int (length (fst st)) \<and>
     map index (fst st) = map int [0..<length (fst st)]"

section \<open>The built tree, described without the builder's state\<close>

text \<open>The number of nodes the builder creates for a raw node.\<close>

fun tsize :: "TTreeNode \<Rightarrow> nat" and tsize_list :: "TTreeNode list \<Rightarrow> nat" where
  "tsize (TTreeNode nm i ty cs) = Suc (case cs of None \<Rightarrow> 0 | Some kids \<Rightarrow> tsize_list kids)"
| "tsize_list [] = 0"
| "tsize_list (k # ks) = tsize k + tsize_list ks"

text \<open>
  The node that the builder returns for a raw node when it starts at address \<open>a\<close>: the
  node itself is placed at \<open>a\<close>, its children from \<open>a + 1\<close> on, each after the whole subtree
  of the one before.
\<close>

fun inode :: "TTreeNode \<Rightarrow> ref option \<Rightarrow> int \<Rightarrow> ref \<Rightarrow> InternalTreeNode"
  and inodes :: "TTreeNode list \<Rightarrow> ref option \<Rightarrow> int \<Rightarrow> ref \<Rightarrow> InternalTreeNode list"
where
  "inode (TTreeNode nm i ty cs) par dep a =
     InternalTreeNode (TTreeNode nm i ty cs)
       (case cs of
          None \<Rightarrow> None
        | Some kids \<Rightarrow>
            if length kids > 0 then Some (inodes kids (Some a) (dep + 1) (a + 1)) else None)
       par dep"
| "inodes [] par dep a = []"
| "inodes (k # ks) par dep a = inode k par dep a # inodes ks par dep (a + tsize k)"

text \<open>
  The catalogue of a built subtree: for every node, in pre-order, its address, the ids
  of its ancestors (outermost first) and the node.
\<close>

fun cat ::
    "string list \<Rightarrow> TTreeNode \<Rightarrow> ref option \<Rightarrow> int \<Rightarrow> ref
       \<Rightarrow> (ref \<times> string list \<times> InternalTreeNode) list"
  and cat_list ::
    "string list \<Rightarrow> TTreeNode list \<Rightarrow> ref option \<Rightarrow> int \<Rightarrow> ref
       \<Rightarrow> (ref \<times> string list \<times> InternalTreeNode) list"
where
  "cat anc (TTreeNode nm i ty cs) par dep a =
     (a, anc, inode (TTreeNode nm i ty cs) par dep a) #
       (case cs of
          None \<Rightarrow> []
        | Some kids \<Rightarrow> cat_list (anc @ [i]) kids (Some a) (dep + 1) (a + 1))"
| "cat_list anc [] par dep a = []"
| "cat_list anc (k # ks) par dep a = cat anc k par dep a @ cat_list anc ks par dep (a + tsize k)"

definition entriesOf :: "TTree \<Rightarrow> (ref \<times> string list \<times> InternalTreeNode) list" where
  "entriesOf data = cat [] data None 0 0"

text \<open>
  What a run of the builder from address \<open>a\<close> over \<open>n\<close> nodes leaves: the next free
  address, the table unchanged outside the addresses it used, and every catalogued node
  at its address.
\<close>

definition built_ok ::
    "(ref \<times> string list \<times> InternalTreeNode) list \<Rightarrow> nodes \<Rightarrow> ref \<Rightarrow> nat \<Rightarrow> nodes \<times> ref \<Rightarrow> bool" where
  "built_ok entries tbl a n s \<longleftrightarrow>
     snd s = a + n \<and>
     (\<forall>x. x < a \<or> a + n \<le> x \<longrightarrow> fst s x = tbl x) \<and>
     (\<forall>e \<in> set entries. fst s (fst e) = Some (snd (snd e)))"

text \<open>
  An entry is a child of another: its parent address is the other's address, its
  ancestors are the other's ancestors and the other, and its node is among the other's
  children.
\<close>

definition childOf ::
    "(ref \<times> string list \<times> InternalTreeNode) \<Rightarrow> (ref \<times> string list \<times> InternalTreeNode) \<Rightarrow> bool" where
  "childOf e q \<longleftrightarrow>
     parent (snd (snd e)) = Some (fst q) \<and>
     fst (snd e) = fst (snd q) @ [id' (item (snd (snd q)))] \<and>
     (\<exists>sibs. children (snd (snd q)) = Some sibs \<and> snd (snd e) \<in> set sibs)"

section \<open>Ids, ancestor chains and child lists of the raw tree\<close>

text \<open>The ids of all nodes in pre-order, the root first; the ids of the items are the rest.\<close>

definition spec_ids :: "TTree \<Rightarrow> string list" where
  "spec_ids data = map (\<lambda>e. id' (snd e)) (spec_preorder [] data)"

definition spec_itemIds :: "TTree \<Rightarrow> string list" where
  "spec_itemIds data = tl (spec_ids data)"

text \<open>The data model's assumption: ids are unique across the whole tree.\<close>

definition spec_uniqueIds :: "TTree \<Rightarrow> bool" where
  "spec_uniqueIds data = distinct (spec_ids data)"

text \<open>
  The ancestor chain of the node with a given id, the node itself included: the ids from
  the root down to the node.
\<close>

definition spec_chainIds :: "TTree \<Rightarrow> string \<Rightarrow> string list" where
  "spec_chainIds data i =
     (case find (\<lambda>e. id' (snd e) = i) (spec_preorder [] data) of
        None \<Rightarrow> []
      | Some e \<Rightarrow> fst e @ [i])"

text \<open>The child list of a raw node; an absent list is empty.\<close>

definition kidsOf :: "TTreeNode \<Rightarrow> TTreeNode list" where
  "kidsOf raw = (case TTreeNode.children raw of None \<Rightarrow> [] | Some ks \<Rightarrow> ks)"

text \<open>The object that the drag-move handler stores for a validated target.\<close>

definition hoveredOf :: "DropTarget \<Rightarrow> HoveredParent" where
  "hoveredOf t =
     \<lparr>parentId = map_option (\<lambda>tp. id' (item tp)) (targetParent t),
      parentDepth = map_option depth (targetParent t),
      HoveredParent.index = Some (flatIndex t),
      childIndex = Some (targetChildIndex t),
      dropIntent = Some (intent t)\<rparr>"

text \<open>
  The dragged ids resolved to nodes through the flat sequence, in drag order, the ids that
  are not in the flat sequence dropped.
\<close>

definition draggedNodesOf :: "SelectableTreeNode list \<Rightarrow> string list \<Rightarrow> InternalTreeNode list" where
  "draggedNodesOf xs ds =
     List.map_filter (\<lambda>i. map_option node (find (\<lambda>s. id' (item (node s)) = i) xs)) ds"

section \<open>Lemmas about the array helpers\<close>

lemmas scenario_defs =
  nodeA1_def nodeA2_def nodeA_def nodeB_def scenario_def scenarioRoot_def scenarioNodes_def

lemma findIndex_ge: "-1 \<le> findIndex P xs"
  by (induction xs) (auto simp: Let_def)

lemma findIndex_lt: "findIndex P xs < int (length xs)"
  by (induction xs) (auto simp: Let_def)

lemma findIndex_none_iff: "findIndex P xs = -1 \<longleftrightarrow> (\<forall>x\<in>set xs. \<not> P x)"
proof (induction xs)
  case Nil
  then show ?case by simp
next
  case (Cons x xs)
  have "-1 \<le> findIndex P xs" by (rule findIndex_ge)
  with Cons show ?case by (auto simp: Let_def)
qed

lemma findIndex_found:
  "findIndex P xs \<noteq> -1 \<Longrightarrow>
     0 \<le> findIndex P xs \<and> nat (findIndex P xs) < length xs \<and> P (xs ! nat (findIndex P xs)) \<and>
     (\<forall>j < nat (findIndex P xs). \<not> P (xs ! j))"
proof (induction xs)
  case Nil
  then show ?case by simp
next
  case (Cons x xs)
  show ?case
  proof (cases "P x")
    case True
    then show ?thesis by simp
  next
    case False
    with Cons.prems have ne: "findIndex P xs \<noteq> -1" by (auto simp: Let_def)
    from Cons.IH [OF ne] have ih: "0 \<le> findIndex P xs" "nat (findIndex P xs) < length xs"
      "P (xs ! nat (findIndex P xs))" "\<forall>j < nat (findIndex P xs). \<not> P (xs ! j)" by auto
    have eq: "findIndex P (x # xs) = findIndex P xs + 1" using False ne by (simp add: Let_def)
    have n: "nat (findIndex P xs + 1) = Suc (nat (findIndex P xs))" using ih(1) by simp
    show ?thesis unfolding eq n using ih False
      by (auto simp: nth_Cons split: nat.splits)
  qed
qed

lemma slice_range:
  "0 \<le> lo \<Longrightarrow> lo \<le> hi \<Longrightarrow> hi < int (length xs) \<Longrightarrow>
     slice xs lo (hi + 1) = take (nat (hi + 1 - lo)) (drop (nat lo) xs)"
  by (simp add: slice_def Let_def min_def)

lemma filter_index_range:
  assumes idx: "map index xs = map int [0..<length xs]"
    and lo: "0 \<le> lo" and le: "lo \<le> hi" and hi: "hi < int (length xs)"
  shows "filter (\<lambda>s. lo \<le> index s \<and> index s \<le> hi) xs = take (nat (hi + 1 - lo)) (drop (nat lo) xs)"
proof -
  have nth: "\<And>i. i < length xs \<Longrightarrow> index (xs ! i) = int i"
  proof -
    fix i assume "i < length xs"
    then have "map index xs ! i = map int [0..<length xs] ! i" using idx by simp
    then show "index (xs ! i) = int i" using \<open>i < length xs\<close> by simp
  qed
  define a where "a = take (nat lo) xs"
  define b where "b = take (nat (hi + 1 - lo)) (drop (nat lo) xs)"
  define c where "c = drop (nat (hi + 1)) xs"
  have split: "xs = a @ b @ c"
  proof -
    have "drop (nat lo) xs = b @ drop (nat (hi + 1 - lo)) (drop (nat lo) xs)"
      unfolding b_def by (rule append_take_drop_id [symmetric])
    moreover have "nat (hi + 1 - lo) + nat lo = nat (hi + 1)" using lo le by simp
    ultimately have "drop (nat lo) xs = b @ c" by (simp add: c_def drop_drop)
    then show ?thesis unfolding a_def by (metis append_take_drop_id)
  qed
  have fa: "filter (\<lambda>s. lo \<le> index s \<and> index s \<le> hi) a = []"
  proof -
    have "\<forall>x\<in>set a. \<not> (lo \<le> index x)"
    proof
      fix x assume "x \<in> set a"
      then obtain i where "i < length a" "x = a ! i" by (auto simp: in_set_conv_nth)
      then have "i < nat lo" "i < length xs" "x = xs ! i" by (auto simp: a_def)
      then show "\<not> (lo \<le> index x)" using nth by auto
    qed
    then show ?thesis by (auto simp: filter_empty_conv)
  qed
  have fc: "filter (\<lambda>s. lo \<le> index s \<and> index s \<le> hi) c = []"
  proof -
    have "\<forall>x\<in>set c. \<not> (index x \<le> hi)"
    proof
      fix x assume "x \<in> set c"
      then obtain i where i: "i < length c" "x = c ! i" by (auto simp: in_set_conv_nth)
      then have "nat (hi + 1) + i < length xs" "x = xs ! (nat (hi + 1) + i)" by (auto simp: c_def)
      then show "\<not> (index x \<le> hi)" using nth lo le by auto
    qed
    then show ?thesis by (auto simp: filter_empty_conv)
  qed
  have fb: "filter (\<lambda>s. lo \<le> index s \<and> index s \<le> hi) b = b"
  proof -
    have "\<forall>x\<in>set b. lo \<le> index x \<and> index x \<le> hi"
    proof
      fix x assume "x \<in> set b"
      then obtain i where i: "i < length b" "x = b ! i" by (auto simp: in_set_conv_nth)
      then have "i < nat (hi + 1 - lo)" "nat lo + i < length xs" "x = xs ! (nat lo + i)"
        by (auto simp: b_def)
      then show "lo \<le> index x \<and> index x \<le> hi" using nth lo le by auto
    qed
    then show ?thesis by (auto simp: filter_id_conv)
  qed
  have "filter (\<lambda>s. lo \<le> index s \<and> index s \<le> hi) xs = b"
    by (subst split) (simp add: fa fb fc)
  then show ?thesis by (simp add: b_def)
qed

section \<open>Drag start\<close>

text \<open>
  C9. At drag start with active id \<open>a\<close>: if \<open>a\<close> is already selected, the dragged ids
  become the current selection, and selection and anchor stay as they are; otherwise the
  dragged ids and the selection become \<open>[a]\<close> and the anchor becomes \<open>a\<close>. Nothing else
  in the store changes.
\<close>

theorem handleDragStart_cases:
  "(a \<in> set (selectedIds st) \<longrightarrow>
      draggingIds (handleDragStart a st) = selectedIds st \<and>
      selectedIds (handleDragStart a st) = selectedIds st \<and>
      anchorId (handleDragStart a st) = anchorId st) \<and>
   (a \<notin> set (selectedIds st) \<longrightarrow>
      draggingIds (handleDragStart a st) = [a] \<and>
      selectedIds (handleDragStart a st) = [a] \<and>
      anchorId (handleDragStart a st) = Some a) \<and>
   collapsed (handleDragStart a st) = collapsed st \<and>
   hoveredParent (handleDragStart a st) = hoveredParent st"
  by (simp add: handleDragStart_def setDraggingIds_def setSelectedIds_def setAnchorId_def)

theorem handleDragStart_cases_witness:
  "draggingIds (handleDragStart ''A1''
      (initialStore\<lparr>selectedIds := [''A1'', ''B''], anchorId := Some ''B''\<rparr>)) = [''A1'', ''B''] \<and>
   anchorId (handleDragStart ''A1''
      (initialStore\<lparr>selectedIds := [''A1'', ''B''], anchorId := Some ''B''\<rparr>)) = Some ''B'' \<and>
   draggingIds (handleDragStart ''A2''
      (initialStore\<lparr>selectedIds := [''A1'', ''B''], anchorId := Some ''B''\<rparr>)) = [''A2''] \<and>
   selectedIds (handleDragStart ''A2''
      (initialStore\<lparr>selectedIds := [''A1'', ''B''], anchorId := Some ''B''\<rparr>)) = [''A2''] \<and>
   anchorId (handleDragStart ''A2''
      (initialStore\<lparr>selectedIds := [''A1'', ''B''], anchorId := Some ''B''\<rparr>)) = Some ''A2''"
  using handleDragStart_cases
      [of "''A1''" "initialStore\<lparr>selectedIds := [''A1'', ''B''], anchorId := Some ''B''\<rparr>"]
    handleDragStart_cases
      [of "''A2''" "initialStore\<lparr>selectedIds := [''A1'', ''B''], anchorId := Some ''B''\<rparr>"]
  by (simp add: initialStore_def)

section \<open>Drag termination\<close>

text \<open>
  C7. Both ways a drag ends leave the drag state at its default: after
  \<^verbatim>\<open>handleDragEnd\<close>, whatever it emits (a payload, nothing, or not even a return),
  and after \<^verbatim>\<open>handleDragCancel\<close>, the dragged ids are empty and the hovered target is
  the all-null value; selection, anchor and collapse map are as before.
\<close>

theorem drag_end_and_cancel_clear_drag_state:
  "draggingIds (fst (handleDragEnd tbl rt ov st)) = [] \<and>
   hoveredParent (fst (handleDragEnd tbl rt ov st)) =
     \<lparr>parentId = None, parentDepth = None, HoveredParent.index = None,
      childIndex = None, dropIntent = None\<rparr> \<and>
   draggingIds (handleDragCancel st) = [] \<and>
   hoveredParent (handleDragCancel st) =
     \<lparr>parentId = None, parentDepth = None, HoveredParent.index = None,
      childIndex = None, dropIntent = None\<rparr> \<and>
   fst (handleDragEnd tbl rt ov st) = handleDragCancel st \<and>
   selectedIds (handleDragCancel st) = selectedIds st \<and>
   anchorId (handleDragCancel st) = anchorId st \<and>
   collapsed (handleDragCancel st) = collapsed st"
  by (simp add: handleDragEnd_def handleDragCancel_def clearDragState_def
      initialHoveredParent_def)

theorem drag_end_and_cancel_clear_drag_state_witness:
  "draggingIds droppingBIntoA = [''B''] \<and>
   snd (handleDragEnd scenarioNodes scenarioRoot True droppingBIntoA) =
     Some (Some \<lparr>items = [nodeB], DragEndPayload.parent = nodeA,
       DragEndPayload.children = [nodeA1, nodeA2], insertAt = 0\<rparr>) \<and>
   draggingIds (fst (handleDragEnd scenarioNodes scenarioRoot True droppingBIntoA)) = [] \<and>
   parentId (hoveredParent (fst (handleDragEnd scenarioNodes scenarioRoot True droppingBIntoA)))
     = None \<and>
   draggingIds (handleDragCancel droppingBIntoA) = [] \<and>
   parentId (hoveredParent (handleDragCancel droppingBIntoA)) = None"
proof -
  have payload:
    "snd (handleDragEnd scenarioNodes scenarioRoot True droppingBIntoA) =
       Some (Some \<lparr>items = [nodeB], DragEndPayload.parent = nodeA,
         DragEndPayload.children = [nodeA1, nodeA2], insertAt = 0\<rparr>)"
    by code_simp
  have before: "draggingIds droppingBIntoA = [''B'']"
    by (simp add: droppingBIntoA_def)
  show ?thesis
    using drag_end_and_cancel_clear_drag_state
        [of scenarioNodes scenarioRoot True droppingBIntoA] payload before
    by simp
qed

section \<open>Auto-expand\<close>

text \<open>
  C8. The action of the auto-expand timer is \<^verbatim>\<open>setCollapsed(item.id, false)\<close>. On a
  container that is already expanded it changes what no reader of the collapse map sees:
  every id reads collapsed or expanded as before, the container reads expanded, every
  other entry of the map is the same entry, and the rest of the store is untouched.
  Firing it a second time gives exactly the store that firing it once gives. The action
  is a total function of the store, so it cannot throw.
\<close>

theorem auto_expand_idempotent:
  assumes "\<not> isCollapsed (collapsed st) i"
  shows "(\<forall>k. isCollapsed (collapsed (setCollapsed i False st)) k = isCollapsed (collapsed st) k) \<and>
         \<not> isCollapsed (collapsed (setCollapsed i False st)) i \<and>
         (\<forall>k. k \<noteq> i \<longrightarrow> collapsed (setCollapsed i False st) k = collapsed st k) \<and>
         selectedIds (setCollapsed i False st) = selectedIds st \<and>
         anchorId (setCollapsed i False st) = anchorId st \<and>
         draggingIds (setCollapsed i False st) = draggingIds st \<and>
         hoveredParent (setCollapsed i False st) = hoveredParent st \<and>
         setCollapsed i False (setCollapsed i False st) = setCollapsed i False st"
  using assms by (simp add: setCollapsed_def isCollapsed_def)

theorem auto_expand_idempotent_witness:
  "\<not> isCollapsed (collapsed (initialStore\<lparr>collapsed := [''B'' \<mapsto> True]\<rparr>)) ''A'' \<and>
   \<not> isCollapsed (collapsed (setCollapsed ''A'' False
        (initialStore\<lparr>collapsed := [''B'' \<mapsto> True]\<rparr>))) ''A'' \<and>
   isCollapsed (collapsed (setCollapsed ''A'' False
        (initialStore\<lparr>collapsed := [''B'' \<mapsto> True]\<rparr>))) ''B'' \<and>
   setCollapsed ''A'' False (setCollapsed ''A'' False
        (initialStore\<lparr>collapsed := [''B'' \<mapsto> True]\<rparr>)) =
     setCollapsed ''A'' False (initialStore\<lparr>collapsed := [''B'' \<mapsto> True]\<rparr>)"
proof -
  have h: "\<not> isCollapsed (collapsed (initialStore\<lparr>collapsed := [''B'' \<mapsto> True]\<rparr>)) ''A''"
    by (simp add: isCollapsed_def initialStore_def)
  show ?thesis
    using h auto_expand_idempotent [OF h] by (simp add: isCollapsed_def initialStore_def)
qed

section \<open>Range selection\<close>

lemma indexOfId_present: "i \<in> set (flatIds xs) \<Longrightarrow> 0 \<le> indexOfId xs i \<and> indexOfId xs i < int (length xs)"
proof -
  assume "i \<in> set (flatIds xs)"
  then have "\<not> (\<forall>x\<in>set xs. \<not> id' (item (node x)) = i)" by (auto simp: flatIds_def)
  then have "indexOfId xs i \<noteq> -1" unfolding indexOfId_def by (simp only: findIndex_none_iff not_False_eq_True)
  moreover have "-1 \<le> indexOfId xs i" unfolding indexOfId_def by (rule findIndex_ge)
  moreover have "indexOfId xs i < int (length xs)" unfolding indexOfId_def by (rule findIndex_lt)
  ultimately show ?thesis by simp
qed

lemma indexOfId_absent: "i \<notin> set (flatIds xs) \<Longrightarrow> indexOfId xs i = -1"
  unfolding indexOfId_def flatIds_def by (auto simp: findIndex_none_iff)

lemma range_branch:
  assumes idx: "map index xs = map int [0..<length xs]"
    and A: "a \<in> set (flatIds xs)" and B: "b \<in> set (flatIds xs)"
    and ne: "a \<noteq> []" and anchor: "anchorId st = Some a" and shift: "shiftKey e"
  shows "handleClick xs b e st = st\<lparr>selectedIds := spec_rangeIds xs a b\<rparr>"
proof -
  let ?ia = "indexOfId xs a" and ?ib = "indexOfId xs b"
  from indexOfId_present [OF A] have ia: "0 \<le> ?ia" "?ia < int (length xs)" by auto
  from indexOfId_present [OF B] have ib: "0 \<le> ?ib" "?ib < int (length xs)" by auto
  have lo: "0 \<le> min ?ia ?ib" and le: "min ?ia ?ib \<le> max ?ia ?ib"
    and hi: "max ?ia ?ib < int (length xs)" using ia ib by auto
  have anchorIndex: "findIndex (\<lambda>s. Some (id' (item (node s))) = anchorId st) xs = ?ia"
    by (simp add: anchor indexOfId_def)
  have sl: "slice xs (min ?ia ?ib) (max ?ia ?ib + 1) =
      filter (\<lambda>s. min ?ia ?ib \<le> index s \<and> index s \<le> max ?ia ?ib) xs"
    by (simp only: slice_range [OF lo le hi] filter_index_range [OF idx lo le hi])
  have "handleClick xs b e st =
      setSelectedIds (map (\<lambda>s. id' (item (node s))) (slice xs (min ?ia ?ib) (max ?ia ?ib + 1))) st"
    unfolding handleClick_def anchorIndex Let_def indexOfId_def [symmetric]
    using shift ne ia ib by (simp add: anchor truthy_def)
  then show ?thesis by (simp add: sl spec_rangeIds_def flatIds_def setSelectedIds_def)
qed

text \<open>
  Range selection from an anchor that is not the empty string. For every flat sequence
  whose index fields are its positions, and ids \<open>a\<close> and \<open>b\<close> both present in it: a
  shift-click on \<open>b\<close> while the anchor is \<open>a\<close> sets the selection to the ids of exactly
  the entries whose flat index lies between the located positions of \<open>a\<close> and \<open>b\<close>, in
  flat order, and leaves the anchor at \<open>a\<close>; exchanging anchor and target selects the
  same ids.
\<close>


lemma range_select_nonempty_anchor:
  assumes idx: "map index xs = map int [0..<length xs]"
    and A: "a \<in> set (flatIds xs)" and B: "b \<in> set (flatIds xs)"
    and ne: "a \<noteq> []" and anchor: "anchorId st = Some a" and shift: "shiftKey e"
  shows "selectedIds (handleClick xs b e st) = spec_rangeIds xs a b \<and>
         anchorId (handleClick xs b e st) = Some a \<and>
         (b \<noteq> [] \<longrightarrow>
            selectedIds (handleClick xs a e (st\<lparr>anchorId := Some b\<rparr>)) =
            selectedIds (handleClick xs b e st))"
proof -
  have one: "handleClick xs b e st = st\<lparr>selectedIds := spec_rangeIds xs a b\<rparr>"
    by (rule range_branch [OF idx A B ne anchor shift])
  have two: "b \<noteq> [] \<Longrightarrow>
      handleClick xs a e (st\<lparr>anchorId := Some b\<rparr>) = st\<lparr>anchorId := Some b, selectedIds := spec_rangeIds xs b a\<rparr>"
    using range_branch [OF idx B A, of "st\<lparr>anchorId := Some b\<rparr>" e] shift by simp
  have sym: "spec_rangeIds xs b a = spec_rangeIds xs a b"
    by (simp add: spec_rangeIds_def min.commute max.commute)
  show ?thesis using one two sym anchor by simp
qed

text \<open>
  C5. Range selection with anchor \<open>A\<close> and target \<open>B\<close>, both present in the flat
  sequence, is to select exactly the ids of the entries between the two positions and to
  leave the anchor unchanged. The handler tests the anchor with
  \<^verbatim>\<open>e.shiftKey && anchorId\<close>, which is false for the empty string as it is for null. In
  the tree whose first item has the id \<^verbatim>\<open>""\<close>, with that item as anchor (a plain click
  on it sets it), a shift-click on \<^verbatim>\<open>B\<close> does not select the range \<^verbatim>\<open>["", "B"]\<close>: it
  is handled as a plain click, which selects \<^verbatim>\<open>B\<close> alone and moves the anchor to it.
\<close>

theorem range_select_empty_anchor:
  "selectedIds (handleClick blankIdItems '''' plainClick initialStore) = [''''] \<and>
   anchorId (handleClick blankIdItems '''' plainClick initialStore) = Some '''' \<and>
   '''' \<in> set (flatIds blankIdItems) \<and> ''B'' \<in> set (flatIds blankIdItems) \<and>
   spec_rangeIds blankIdItems '''' ''B'' = ['''', ''B''] \<and>
   selectedIds (handleClick blankIdItems ''B'' shiftClick
      (initialStore\<lparr>selectedIds := [''''], anchorId := Some ''''\<rparr>)) = [''B''] \<and>
   anchorId (handleClick blankIdItems ''B'' shiftClick
      (initialStore\<lparr>selectedIds := [''''], anchorId := Some ''''\<rparr>)) = Some ''B''"
  by code_simp

section \<open>Range selection from a stale anchor\<close>

text \<open>
  C6 as stated fails: with \<^verbatim>\<open>A\<close> collapsed, the anchor \<^verbatim>\<open>A1\<close> is absent from the flat
  sequence, and a shift-click on \<^verbatim>\<open>B\<close> replaces both the selection and the anchor.
\<close>

theorem stale_anchor_not_noop_counterexample:
  "flatIds (useSelectableItems scenarioRoot (collapsed anchoredAtA1)) = [''A'', ''B''] \<and>
   anchorId anchoredAtA1 = Some ''A1'' \<and> selectedIds anchoredAtA1 = [''A1''] \<and>
   selectedIds (handleClick (useSelectableItems scenarioRoot (collapsed anchoredAtA1)) ''B''
      shiftClick anchoredAtA1) = [''B''] \<and>
   anchorId (handleClick (useSelectableItems scenarioRoot (collapsed anchoredAtA1)) ''B''
      shiftClick anchoredAtA1) = Some ''B''"
  by code_simp

text \<open>
  C6 (amended). A shift-click whose anchor is null or absent from the flat sequence, or
  whose target id is absent from it, selects no range and raises no error; it is handled
  as the same click without shift: with meta or ctrl it toggles the clicked id in the
  selection and keeps the anchor, otherwise it selects the clicked id alone and makes it
  the anchor.
\<close>

theorem stale_anchor_falls_back:
  assumes shift: "shiftKey e"
    and absent: "(case anchorId st of None \<Rightarrow> True | Some a \<Rightarrow> a \<notin> set (flatIds xs)) \<or>
                 i \<notin> set (flatIds xs)"
  shows "handleClick xs i e st =
           (if metaKey e \<or> ctrlKey e then
              (if i \<in> set (selectedIds st)
               then st\<lparr>selectedIds := filter (\<lambda>j. j \<noteq> i) (selectedIds st)\<rparr>
               else st\<lparr>selectedIds := selectedIds st @ [i]\<rparr>)
            else st\<lparr>selectedIds := [i], anchorId := Some i\<rparr>)"
proof -
  have "\<not> truthy (anchorId st) \<or>
        findIndex (\<lambda>s. Some (id' (item (node s))) = anchorId st) xs = -1 \<or>
        findIndex (\<lambda>s. id' (item (node s)) = i) xs = -1"
  proof (cases "anchorId st")
    case None
    then show ?thesis by (simp add: truthy_def)
  next
    case (Some a)
    from absent Some have "a \<notin> set (flatIds xs) \<or> i \<notin> set (flatIds xs)" by simp
    then have "indexOfId xs a = -1 \<or> indexOfId xs i = -1" using indexOfId_absent by blast
    then show ?thesis using Some by (simp add: indexOfId_def)
  qed
  then show ?thesis
    unfolding handleClick_def Let_def
    by (auto simp: setSelectedIds_def setAnchorId_def)
qed

theorem stale_anchor_falls_back_witness:
  "shiftKey shiftClick \<and> ''A1'' \<notin> set (flatIds (useSelectableItems scenarioRoot (collapsed anchoredAtA1))) \<and>
   handleClick (useSelectableItems scenarioRoot (collapsed anchoredAtA1)) ''B'' shiftClick anchoredAtA1
     = anchoredAtA1\<lparr>selectedIds := [''B''], anchorId := Some ''B''\<rparr>"
proof -
  let ?xs = "useSelectableItems scenarioRoot (collapsed anchoredAtA1)"
  have shift: "shiftKey shiftClick" by (simp add: shiftClick_def)
  have a: "anchorId anchoredAtA1 = Some ''A1''" by (simp add: anchoredAtA1_def)
  have absent: "''A1'' \<notin> set (flatIds ?xs)" by code_simp
  then have h: "(case anchorId anchoredAtA1 of None \<Rightarrow> True | Some a \<Rightarrow> a \<notin> set (flatIds ?xs)) \<or>
      ''B'' \<notin> set (flatIds ?xs)" by (simp add: a)
  show ?thesis
    using stale_anchor_falls_back [OF shift h] shift absent by (simp add: shiftClick_def)
qed

section \<open>The flattener\<close>

lemma counted_push:
  "counted (acc, idx) \<Longrightarrow> counted (acc @ [\<lparr>node = n, index = idx\<rparr>], idx + 1)"
  by (simp add: counted_def)

lemma walk_counted:
  "counted st \<Longrightarrow> counted (walk c n st)"
  "counted st \<Longrightarrow> counted (walk_children c ns st)"
proof (induction c n st and c ns st rule: walk_walk_children.induct)
  case (1 c it cs p d acc idx)
  let ?s = "if d > 0 then (acc @ [\<lparr>node = InternalTreeNode it cs p d, index = idx\<rparr>], idx + 1)
            else (acc, idx)"
  have s: "counted ?s" using "1.prems" counted_push by simp
  show ?case
  proof (cases cs)
    case None
    then show ?thesis using s by (auto simp: Let_def split: if_splits)
  next
    case (Some kids)
    show ?thesis
    proof (cases "d = 0 \<or> \<not> collapsedFlag c (id' it)")
      case True
      have "counted (walk_children c kids ?s)"
        using "1.IH" [OF refl refl refl Some True s] .
      then show ?thesis using Some True by (auto simp: Let_def split: if_splits)
    next
      case False
      then show ?thesis using s Some by (auto simp: Let_def split: if_splits)
    qed
  qed
next
  case (2 c s)
  then show ?case by simp
next
  case (3 c child rest s)
  then show ?case by simp
qed

text \<open>
  For every node and every collapse map, the index fields of the flat sequence are
  0, 1, ..., n-1 in this order.
\<close>

lemma flat_indices:
  "map index (useSelectableItems n c) = map int [0..<length (useSelectableItems n c)]"
proof -
  have "counted (walk c n ([], 0))" by (rule walk_counted(1)) (simp add: counted_def)
  then show ?thesis by (simp add: counted_def useSelectableItems_def)
qed

text \<open>
  C1. The flat sequence is to hold exactly the nodes whose whole ancestor chain is
  uncollapsed, in pre-order, with the indices 0..n-1. The indices are so for every input
  (\<open>flat_indices\<close>). The nodes are not: the flattener reads the flag of a node as
  \<^verbatim>\<open>collapsed[node.item.id] ?? false\<close> on a plain object, and for an id that names an
  inherited property of plain objects the lookup yields that property, which is truthy.
  In the tree \<^verbatim>\<open>root -> [constructor(dir, [c1]), B]\<close> with the empty collapse map no
  container is collapsed, so the nodes to list are \<^verbatim>\<open>constructor\<close>, \<^verbatim>\<open>c1\<close> and \<^verbatim>\<open>B\<close>;
  the flattener lists \<^verbatim>\<open>constructor\<close> and \<^verbatim>\<open>B\<close> and leaves \<^verbatim>\<open>c1\<close> out.
\<close>

theorem flatten_inherited_key:
  "map specView (spec_visible Map.empty inheritedKeyTree) =
     [(nodeConstructor, 1), (nodeC1, 2), (nodeB, 1)] \<and>
   map entryView (useSelectableItems (internalRootOf inheritedKeyTree) Map.empty) =
     [(nodeConstructor, 1), (nodeB, 1)] \<and>
   map index (useSelectableItems (internalRootOf inheritedKeyTree) Map.empty) = [0, 1]"
  by code_simp

section \<open>Drop zones of a container\<close>

text \<open>
  C2. Over a container the top quarter resolves to above, the bottom quarter of a
  container that is not expanded to below, and everything else, the bottom quarter of an
  expanded container included, to inside with the container as parent and child index 0.
  The handler decides "expanded" with \<^verbatim>\<open>collapsed[overNode.item.id] ?? false\<close> on a
  plain object, so a container whose id names an inherited property and that has no
  entry in the collapse map counts as collapsed. In the tree
  \<^verbatim>\<open>root -> [constructor(dir, [c1]), B]\<close> with the empty collapse map the container
  \<^verbatim>\<open>constructor\<close> is expanded and has a child, so ratio 0.9 over it is to give inside,
  parent \<^verbatim>\<open>constructor\<close>, child index 0, flat index 1; the handler commits below,
  parent \<^verbatim>\<open>root\<close>, child index 1, flat index 1.
\<close>

theorem container_bottom_zone_inherited_key:
  "\<not> isCollapsed (collapsed draggingB) ''constructor'' \<and>
   map_option hoveredParent
     (handleDragMove (nodesOf inheritedKeyTree) (internalRootOf inheritedKeyTree)
        overConstructorBottom draggingB) =
     Some \<lparr>parentId = Some ''root'', parentDepth = Some 0, HoveredParent.index = Some 1,
           childIndex = Some 1, dropIntent = Some below\<rparr>"
  by code_simp

section \<open>The builder and the catalogue\<close>

lemma cat_addr:
  "e \<in> set (cat anc raw par dep a) \<Longrightarrow> a \<le> fst e \<and> fst e < a + tsize raw"
  "e \<in> set (cat_list anc raws par dep a) \<Longrightarrow> a \<le> fst e \<and> fst e < a + tsize_list raws"
  by (induction anc raw par dep a and anc raws par dep a arbitrary: e and e
      rule: cat_cat_list.induct) (fastforce split: option.splits)+

lemma build_char:
  "fst (buildInternalTree raw par dep (tbl, a)) = inode raw par dep a \<and>
   built_ok (cat anc raw par dep a) tbl a (tsize raw) (snd (buildInternalTree raw par dep (tbl, a)))"
  "fst (buildChildren raws par dep (tbl, a)) = inodes raws par dep a \<and>
   built_ok (cat_list anc raws par dep a) tbl a (tsize_list raws) (snd (buildChildren raws par dep (tbl, a)))"
proof (induction anc raw par dep a and anc raws par dep a arbitrary: tbl and tbl
    rule: cat_cat_list.induct)
  case (1 anc nm i ty cs par dep a)
  let ?raw = "TTreeNode nm i ty cs"
  let ?n0 = "InternalTreeNode ?raw None par dep"
  show ?case
  proof (cases cs)
    case None
    then show ?thesis by (simp add: built_ok_def Let_def)
  next
    case (Some kids)
    show ?thesis
    proof (cases "length kids > 0")
      case False
      then show ?thesis using Some by (simp add: built_ok_def Let_def)
    next
      case True
      define r where "r = buildChildren kids (Some a) (dep + 1) (tbl(a \<mapsto> ?n0), a + 1)"
      have ih: "fst r = inodes kids (Some a) (dep + 1) (a + 1)"
        "built_ok (cat_list (anc @ [i]) kids (Some a) (dep + 1) (a + 1)) (tbl(a \<mapsto> ?n0)) (a + 1)
           (tsize_list kids) (snd r)"
        using "1.IH" [OF Some, of "tbl(a \<mapsto> ?n0)"] unfolding r_def by blast+
      let ?n = "InternalTreeNode ?raw (Some (fst r)) par dep"
      have res: "buildInternalTree ?raw par dep (tbl, a) = (?n, ((fst (snd r))(a \<mapsto> ?n), snd (snd r)))"
        using True Some by (simp add: Let_def case_prod_beta r_def)
      have node: "?n = inode ?raw par dep a" using True Some ih(1) by simp
      have nxt: "snd (snd r) = a + tsize ?raw" using ih(2) Some by (simp add: built_ok_def)
      have frame: "\<forall>x. x < a \<or> a + tsize ?raw \<le> x \<longrightarrow> ((fst (snd r))(a \<mapsto> ?n)) x = tbl x"
        using ih(2) Some by (auto simp: built_ok_def)
      have entries: "\<forall>e \<in> set (cat anc ?raw par dep a). ((fst (snd r))(a \<mapsto> ?n)) (fst e) = Some (snd (snd e))"
      proof
        fix e assume e: "e \<in> set (cat anc ?raw par dep a)"
        then consider "e = (a, anc, inode ?raw par dep a)"
          | "e \<in> set (cat_list (anc @ [i]) kids (Some a) (dep + 1) (a + 1))"
          using Some by auto
        then show "((fst (snd r))(a \<mapsto> ?n)) (fst e) = Some (snd (snd e))"
        proof cases
          case 1
          then show ?thesis using node by simp
        next
          case 2
          then have "a + 1 \<le> fst e" using cat_addr(2) by blast
          moreover have "fst (snd r) (fst e) = Some (snd (snd e))" using ih(2) 2 by (simp add: built_ok_def)
          ultimately show ?thesis by simp
        qed
      qed
      show ?thesis unfolding res using node nxt frame entries
        by (simp add: built_ok_def)
    qed
  qed
next
  case (2 anc par dep a)
  show ?case by (simp add: built_ok_def)
next
  case (3 anc k ks par dep a)
  define r1 where "r1 = buildInternalTree k par dep (tbl, a)"
  have ih1: "fst r1 = inode k par dep a"
    "built_ok (cat anc k par dep a) tbl a (tsize k) (snd r1)"
    using "3.IH"(1) [of tbl] unfolding r1_def by blast+
  have a1: "snd (snd r1) = a + tsize k" using ih1(2) by (simp add: built_ok_def)
  define r2 where "r2 = buildChildren ks par dep (fst (snd r1), a + tsize k)"
  have ih2: "fst r2 = inodes ks par dep (a + tsize k)"
    "built_ok (cat_list anc ks par dep (a + tsize k)) (fst (snd r1)) (a + tsize k) (tsize_list ks) (snd r2)"
    using "3.IH"(2) [of "fst (snd r1)"] unfolding r2_def by blast+
  have s1: "snd r1 = (fst (snd r1), a + tsize k)" using a1 by (simp add: prod_eq_iff)
  have res: "buildChildren (k # ks) par dep (tbl, a) = (fst r1 # fst r2, snd r2)"
    unfolding r2_def s1 [symmetric] by (simp add: case_prod_beta r1_def)
  have entries: "\<forall>e \<in> set (cat_list anc (k # ks) par dep a). fst (snd r2) (fst e) = Some (snd (snd e))"
  proof
    fix e assume "e \<in> set (cat_list anc (k # ks) par dep a)"
    then consider "e \<in> set (cat anc k par dep a)" | "e \<in> set (cat_list anc ks par dep (a + tsize k))"
      by auto
    then show "fst (snd r2) (fst e) = Some (snd (snd e))"
    proof cases
      case 1
      then have "fst e < a + tsize k" using cat_addr(1) by blast
      then have "fst (snd r2) (fst e) = fst (snd r1) (fst e)" using ih2(2) by (simp add: built_ok_def)
      then show ?thesis using ih1(2) 1 by (simp add: built_ok_def)
    next
      case 2
      then show ?thesis using ih2(2) by (simp add: built_ok_def)
    qed
  qed
  have frame: "\<forall>x. x < a \<or> a + tsize_list (k # ks) \<le> x \<longrightarrow> fst (snd r2) x = tbl x"
    using ih1(2) ih2(2) by (auto simp: built_ok_def)
  have "snd (snd r2) = a + tsize_list (k # ks)" using ih2(2) by (simp add: built_ok_def)
  then show ?case unfolding res using ih1(1) ih2(1) frame entries by (simp add: built_ok_def)
qed

lemma inode_fields:
  "item (inode raw par dep a) = raw" "depth (inode raw par dep a) = dep"
  "parent (inode raw par dep a) = par"
  by (cases raw; simp)+

lemma inodes_item: "map item (inodes raws par dep a) = raws"
  by (induction raws arbitrary: a) (simp_all add: inode_fields)

lemma inodes_parent: "n \<in> set (inodes raws par dep a) \<Longrightarrow> parent n = par \<and> depth n = dep"
  by (induction raws arbitrary: a) (auto simp: inode_fields)

lemma inode_children:
  "children (inode raw par dep a) =
     (case TTreeNode.children raw of
        None \<Rightarrow> None
      | Some kids \<Rightarrow> if kids = [] then None else Some (inodes kids (Some a) (dep + 1) (a + 1)))"
  by (cases raw) (simp split: option.splits)

text \<open>The catalogue of a subtree lists the raw pre-order.\<close>

lemma cat_preorder:
  "map (\<lambda>e. (fst (snd e), item (snd (snd e)))) (cat anc raw par dep a) = spec_preorder anc raw"
  "map (\<lambda>e. (fst (snd e), item (snd (snd e)))) (cat_list anc raws par dep a) = spec_preorder_list anc raws"
  by (induction anc raw par dep a and anc raws par dep a rule: cat_cat_list.induct)
     (simp_all add: inode_fields split: option.splits)

lemma cat_depth:
  "e \<in> set (cat anc raw par dep a) \<Longrightarrow>
     depth (snd (snd e)) = dep + int (length (fst (snd e))) - int (length anc)"
  "e \<in> set (cat_list anc raws par dep a) \<Longrightarrow>
     depth (snd (snd e)) = dep + int (length (fst (snd e))) - int (length anc)"
  by (induction anc raw par dep a and anc raws par dep a arbitrary: e and e
      rule: cat_cat_list.induct)
     (fastforce simp: inode_fields split: option.splits)+

lemma cat_parent:
  "e \<in> set (cat anc raw par dep a) \<Longrightarrow>
     e = (a, anc, inode raw par dep a) \<or> (\<exists>q \<in> set (cat anc raw par dep a). childOf e q)"
  "e \<in> set (cat_list anc raws par dep a) \<Longrightarrow>
     (fst (snd e) = anc \<and> snd (snd e) \<in> set (inodes raws par dep a)) \<or>
     (\<exists>q \<in> set (cat_list anc raws par dep a). childOf e q)"
proof (induction anc raw par dep a and anc raws par dep a arbitrary: e and e
    rule: cat_cat_list.induct)
  case (1 anc nm i ty cs par dep a)
  let ?raw = "TTreeNode nm i ty cs"
  let ?top = "(a, anc, inode ?raw par dep a)"
  show ?case
  proof (cases "e = ?top")
    case True
    then show ?thesis by simp
  next
    case False
    with "1.prems" obtain kids where cs: "cs = Some kids"
      and e: "e \<in> set (cat_list (anc @ [i]) kids (Some a) (dep + 1) (a + 1))"
      by (auto split: option.splits)
    have sub: "set (cat_list (anc @ [i]) kids (Some a) (dep + 1) (a + 1)) \<subseteq> set (cat anc ?raw par dep a)"
      using cs by auto
    have top: "?top \<in> set (cat anc ?raw par dep a)" by simp
    from "1.IH" [OF cs e] show ?thesis
    proof
      assume h: "fst (snd e) = anc @ [i] \<and> snd (snd e) \<in> set (inodes kids (Some a) (dep + 1) (a + 1))"
      then have ne: "kids \<noteq> []" by auto
      have "parent (snd (snd e)) = Some a" using h inodes_parent by blast
      moreover have "children (inode ?raw par dep a) = Some (inodes kids (Some a) (dep + 1) (a + 1))"
        using cs ne by (simp add: inode_children)
      ultimately have "childOf e ?top" using h by (simp add: childOf_def inode_fields)
      then show ?thesis using top by blast
    next
      assume "\<exists>q\<in>set (cat_list (anc @ [i]) kids (Some a) (dep + 1) (a + 1)). childOf e q"
      then show ?thesis using sub by blast
    qed
  qed
next
  case (2 anc par dep a)
  then show ?case by simp
next
  case (3 anc k ks par dep a)
  from "3.prems" consider "e \<in> set (cat anc k par dep a)"
    | "e \<in> set (cat_list anc ks par dep (a + tsize k))" by auto
  then show ?case
  proof cases
    case 1
    from "3.IH"(1) [OF 1] show ?thesis by auto
  next
    case 2
    from "3.IH"(2) [OF 2] show ?thesis by auto
  qed
qed

lemma hasAncestor_entry:
  assumes tbl: "\<forall>e \<in> set (cat [] raw None dep a). tbl (fst e) = Some (snd (snd e))"
    and e: "e \<in> set (cat [] raw None dep a)"
  shows "hasAncestor tbl (Some (snd (snd e))) d =
           Some (d \<in> set (fst (snd e) @ [id' (item (snd (snd e)))]))"
  using e
proof (induction "fst (snd e)" arbitrary: e rule: rev_induct)
  case Nil
  from cat_parent(1) [OF Nil.prems] have top: "e = (a, [], inode raw None dep a)"
    using Nil.hyps by (auto simp: childOf_def)
  have "parentOf tbl (snd (snd e)) = None" using top by (simp add: parentOf_def inode_fields)
  then show ?case using Nil.hyps [symmetric]
    by (subst hasAncestor.simps) (simp add: hasAncestor.simps)
next
  case (snoc x anc')
  from cat_parent(1) [OF snoc.prems] snoc.hyps(2) obtain q where
    q: "q \<in> set (cat [] raw None dep a)" and c: "childOf e q"
    by fastforce
  have anc: "anc' = fst (snd q)" "x = id' (item (snd (snd q)))"
    using c snoc.hyps(2) by (auto simp: childOf_def)
  have par: "parentOf tbl (snd (snd e)) = Some (snd (snd q))"
    using c tbl q by (simp add: childOf_def parentOf_def)
  have ih: "hasAncestor tbl (Some (snd (snd q))) d =
      Some (d \<in> set (fst (snd q) @ [id' (item (snd (snd q)))]))"
    using snoc.hyps(1) [OF anc(1) q] .
  show ?case
    by (subst hasAncestor.simps) (auto simp: par ih snoc.hyps(2) [symmetric] anc)
qed

lemma anyHasAncestor_total:
  assumes "\<And>d. hasAncestor tbl tp d = Some (d \<in> S)"
  shows "anyHasAncestor tbl tp ds = Some (\<exists>d \<in> set ds. d \<in> S)"
  by (induction ds) (auto simp: assms split: bool.splits)

lemma filterValid_total:
  assumes "\<And>d. hasAncestor tbl (Some tp) d = Some (d \<in> S)" and "id' (item tp) \<in> S"
  shows "filterValid tbl tp ns = Some (filter (\<lambda>n. id' (item n) \<notin> S) ns)"
  using assms(2) by (induction ns) (auto simp: assms(1))

text \<open>What the flattener pushes are nodes of the catalogue, at a depth above zero.\<close>

lemma walk_nodes:
  "s \<in> set (fst (walk c (inode raw par dep a) st)) \<Longrightarrow>
     s \<in> set (fst st) \<or>
     (\<exists>e \<in> set (cat anc raw par dep a). node s = snd (snd e) \<and> depth (node s) > 0)"
  "s \<in> set (fst (walk_children c (inodes raws par dep a) st)) \<Longrightarrow>
     s \<in> set (fst st) \<or>
     (\<exists>e \<in> set (cat_list anc raws par dep a). node s = snd (snd e) \<and> depth (node s) > 0)"
proof (induction anc raw par dep a and anc raws par dep a arbitrary: st and st
    rule: cat_cat_list.induct)
  case (1 anc nm i ty cs par dep a)
  let ?raw = "TTreeNode nm i ty cs"
  obtain acc idx where st: "st = (acc, idx)" by (cases st)
  let ?n = "inode ?raw par dep a"
  let ?s1 = "if dep > 0 then (acc @ [\<lparr>node = ?n, index = idx\<rparr>], idx + 1) else (acc, idx)"
  have top: "(a, anc, ?n) \<in> set (cat anc ?raw par dep a)" by simp
  have s1: "s' \<in> set (fst ?s1) \<Longrightarrow> s' \<in> set acc \<or>
      (\<exists>e \<in> set (cat anc ?raw par dep a). node s' = snd (snd e) \<and> depth (node s') > 0)" for s'
    using top by (fastforce simp: inode_fields split: if_splits)
  show ?case
  proof (cases "cs = None \<or> cs = Some []")
    case True
    then have "walk c ?n st = ?s1" by (auto simp: st Let_def)
    then show ?thesis using "1.prems" s1 st by simp
  next
    case False
    then obtain kids where cs: "cs = Some kids" and ne: "kids \<noteq> []" by auto
    let ?ks = "inodes kids (Some a) (dep + 1) (a + 1)"
    have n: "?n = InternalTreeNode ?raw (Some ?ks) par dep" using cs ne by simp
    have sub: "set (cat_list (anc @ [i]) kids (Some a) (dep + 1) (a + 1)) \<subseteq> set (cat anc ?raw par dep a)"
      using cs by auto
    show ?thesis
    proof (cases "dep = 0 \<or> \<not> collapsedFlag c i")
      case True
      have w: "walk c ?n st = walk_children c ?ks ?s1"
        unfolding n st using True by (auto simp: Let_def)
      from "1.prems" have "s \<in> set (fst (walk_children c ?ks ?s1))" using w by simp
      from "1.IH" [OF cs this] show ?thesis using s1 [of s] sub st by auto
    next
      case False
      have w: "walk c ?n st = ?s1"
        unfolding n st using False by (auto simp: Let_def)
      then show ?thesis using "1.prems" s1 st by simp
    qed
  qed
next
  case (2 anc par dep a)
  then show ?case by simp
next
  case (3 anc k ks par dep a)
  from "3.prems" have "s \<in> set (fst (walk_children c (inodes ks par dep (a + tsize k))
      (walk c (inode k par dep a) st)))" by simp
  from "3.IH"(2) [OF this] show ?case
  proof
    assume "s \<in> set (fst (walk c (inode k par dep a) st))"
    from "3.IH"(1) [OF this] show ?thesis by auto
  next
    assume "\<exists>e\<in>set (cat_list anc ks par dep (a + tsize k)).
        node s = snd (snd e) \<and> 0 < depth (node s)"
    then show ?thesis by auto
  qed
qed

lemma findNodeById_entry:
  "findNodeById (inode raw par dep a) i = Some tp \<Longrightarrow>
     id' (item tp) = i \<and> (\<exists>e \<in> set (cat anc raw par dep a). tp = snd (snd e))"
  "findNodeById_children (inodes raws par dep a) i = Some tp \<Longrightarrow>
     id' (item tp) = i \<and> (\<exists>e \<in> set (cat_list anc raws par dep a). tp = snd (snd e))"
proof (induction anc raw par dep a and anc raws par dep a rule: cat_cat_list.induct)
  case (1 anc nm i' ty cs par dep a)
  let ?raw = "TTreeNode nm i' ty cs"
  show ?case
  proof (cases "i' = i")
    case True
    with "1.prems" have "tp = inode ?raw par dep a" by simp
    then show ?thesis using True by (auto simp: inode_fields simp del: inode.simps)
  next
    case False
    with "1.prems" obtain kids where cs: "cs = Some kids" and ne: "kids \<noteq> []"
      and f: "findNodeById_children (inodes kids (Some a) (dep + 1) (a + 1)) i = Some tp"
      by (auto split: option.splits if_splits)
    from "1.IH" [OF cs f] show ?thesis using cs by auto
  qed
next
  case (2 anc par dep a)
  then show ?case by simp
next
  case (3 anc k ks par dep a)
  show ?case
  proof (cases "findNodeById (inode k par dep a) i")
    case None
    with "3.prems" have "findNodeById_children (inodes ks par dep (a + tsize k)) i = Some tp" by simp
    from "3.IH"(2) [OF this] show ?thesis by auto
  next
    case (Some found)
    with "3.prems" have "findNodeById (inode k par dep a) i = Some tp" by simp
    from "3.IH"(1) [OF this] show ?thesis by auto
  qed
qed

lemma built_root: "internalRootOf data = inode data None 0 0"
  using build_char(1) [of data None 0 Map.empty 0 "[]"] by (simp add: internalRootOf_def)

lemma built_nodes: "e \<in> set (entriesOf data) \<Longrightarrow> nodesOf data (fst e) = Some (snd (snd e))"
  using build_char(1) [of data None 0 Map.empty 0 "[]"]
  by (simp add: nodesOf_def entriesOf_def built_ok_def)

lemma entries_preorder:
  "map (\<lambda>e. (fst (snd e), item (snd (snd e)))) (entriesOf data) = spec_preorder [] data"
  by (simp add: entriesOf_def cat_preorder)

lemma entry_in_preorder:
  "e \<in> set (entriesOf data) \<Longrightarrow> (fst (snd e), item (snd (snd e))) \<in> set (spec_preorder [] data)"
  using entries_preorder [of data] by (metis (mono_tags, lifting) image_eqI list.set_map)

lemma find_distinct:
  "distinct (map f xs) \<Longrightarrow> x \<in> set xs \<Longrightarrow> find (\<lambda>y. f y = f x) xs = Some x"
  by (induction xs) auto

lemma findIndex_distinct:
  "distinct (map f xs) \<Longrightarrow> x \<in> set xs \<Longrightarrow>
     \<exists>k < length xs. xs ! k = x \<and> findIndex (\<lambda>y. f y = f x) xs = int k"
proof (induction xs)
  case Nil
  then show ?case by simp
next
  case (Cons y ys)
  show ?case
  proof (cases "y = x")
    case True
    then show ?thesis by auto
  next
    case False
    with Cons.prems have x: "x \<in> set ys" and d: "distinct (map f ys)" and ne: "f y \<noteq> f x"
      by auto
    from Cons.IH [OF d x] obtain k where k: "k < length ys" "ys ! k = x"
      "findIndex (\<lambda>y. f y = f x) ys = int k" by blast
    have "findIndex (\<lambda>y. f y = f x) (y # ys) = int (Suc k)" using ne k(3) by (simp add: Let_def)
    then show ?thesis using k by (intro exI [of _ "Suc k"]) simp
  qed
qed

lemma chainIds_entry:
  assumes uniq: "spec_uniqueIds data" and e: "e \<in> set (entriesOf data)"
  shows "spec_chainIds data (id' (item (snd (snd e)))) = fst (snd e) @ [id' (item (snd (snd e)))]"
proof -
  let ?x = "(fst (snd e), item (snd (snd e)))"
  have d: "distinct (map (\<lambda>e. id' (snd e)) (spec_preorder [] data))"
    using uniq by (simp add: spec_uniqueIds_def spec_ids_def)
  have "find (\<lambda>y. id' (snd y) = id' (snd ?x)) (spec_preorder [] data) = Some ?x"
    by (rule find_distinct [OF d entry_in_preorder [OF e]])
  then show ?thesis by (simp add: spec_chainIds_def)
qed

text \<open>Unique ids make the ids of every node's children distinct.\<close>

lemma kids_ids_distinct:
  "distinct (map (\<lambda>e. id' (snd e)) (spec_preorder_list anc ks)) \<Longrightarrow> distinct (map id' ks)"
proof (induction ks)
  case Nil
  then show ?case by simp
next
  case (Cons k ks)
  have sub: "set (map id' ks) \<subseteq> set (map (\<lambda>e. id' (snd e)) (spec_preorder_list anc ks))"
  proof (induction ks)
    case Nil
    then show ?case by simp
  next
    case (Cons x xs)
    have "id' x \<in> set (map (\<lambda>e. id' (snd e)) (spec_preorder anc x))" by (cases x) simp
    then show ?case using Cons by auto
  qed
  have hd: "id' k \<in> set (map (\<lambda>e. id' (snd e)) (spec_preorder anc k))" by (cases k) simp
  from Cons.prems have d2: "distinct (map (\<lambda>e. id' (snd e)) (spec_preorder_list anc ks))"
    and disj: "set (map (\<lambda>e. id' (snd e)) (spec_preorder anc k)) \<inter>
               set (map (\<lambda>e. id' (snd e)) (spec_preorder_list anc ks)) = {}"
    by auto
  have "id' k \<notin> set (map id' ks)" using hd disj sub by blast
  then show ?case using Cons.IH [OF d2] by simp
qed

lemma preorder_kids_distinct:
  "e \<in> set (spec_preorder anc raw) \<Longrightarrow>
     distinct (map (\<lambda>e. id' (snd e)) (spec_preorder anc raw)) \<Longrightarrow> distinct (map id' (kidsOf (snd e)))"
  "e \<in> set (spec_preorder_list anc raws) \<Longrightarrow>
     distinct (map (\<lambda>e. id' (snd e)) (spec_preorder_list anc raws)) \<Longrightarrow> distinct (map id' (kidsOf (snd e)))"
proof (induction anc raw and anc raws arbitrary: e and e rule: spec_preorder_spec_preorder_list.induct)
  case (1 anc nm i ty cs)
  show ?case
  proof (cases cs)
    case None
    then show ?thesis using "1.prems" by (simp add: kidsOf_def)
  next
    case (Some kids)
    have d: "distinct (map (\<lambda>e. id' (snd e)) (spec_preorder_list (anc @ [i]) kids))"
      using "1.prems"(2) Some by simp
    from "1.prems"(1) Some consider "e = (anc, TTreeNode nm i ty cs)"
      | "e \<in> set (spec_preorder_list (anc @ [i]) kids)" by auto
    then show ?thesis
    proof cases
      case 1
      then show ?thesis using kids_ids_distinct [OF d] Some by (simp add: kidsOf_def)
    next
      case 2
      then show ?thesis using "1.IH" [OF Some _ d] by simp
    qed
  qed
next
  case (2 anc)
  then show ?case by simp
next
  case (3 anc k ks)
  from "3.prems"(2) have d1: "distinct (map (\<lambda>e. id' (snd e)) (spec_preorder anc k))"
    and d2: "distinct (map (\<lambda>e. id' (snd e)) (spec_preorder_list anc ks))" by auto
  from "3.prems"(1) consider "e \<in> set (spec_preorder anc k)" | "e \<in> set (spec_preorder_list anc ks)"
    by auto
  then show ?case
  proof cases
    case 1
    then show ?thesis using "3.IH"(1) d1 by simp
  next
    case 2
    then show ?thesis using "3.IH"(2) d2 by simp
  qed
qed

lemma cat_is_inode:
  "e \<in> set (cat anc raw par dep a) \<Longrightarrow>
     \<exists>p d. snd (snd e) = inode (item (snd (snd e))) p d (fst e)"
  "e \<in> set (cat_list anc raws par dep a) \<Longrightarrow>
     \<exists>p d. snd (snd e) = inode (item (snd (snd e))) p d (fst e)"
proof (induction anc raw par dep a and anc raws par dep a arbitrary: e and e
    rule: cat_cat_list.induct)
  case (1 anc nm i ty cs par dep a)
  from "1.prems" consider "e = (a, anc, inode (TTreeNode nm i ty cs) par dep a)"
    | kids where "cs = Some kids" "e \<in> set (cat_list (anc @ [i]) kids (Some a) (dep + 1) (a + 1))"
    by (auto split: option.splits)
  then show ?case
  proof cases
    case 1
    then show ?thesis by (auto simp: inode_fields simp del: inode.simps)
  next
    case 2
    then show ?thesis using "1.IH" by simp
  qed
next
  case (2 anc par dep a)
  then show ?case by simp
next
  case (3 anc k ks par dep a)
  from "3.prems" consider "e \<in> set (cat anc k par dep a)"
    | "e \<in> set (cat_list anc ks par dep (a + tsize k))" by auto
  then show ?case
  proof cases
    case 1
    then show ?thesis by (rule "3.IH"(1))
  next
    case 2
    then show ?thesis by (rule "3.IH"(2))
  qed
qed

lemma entry_children:
  assumes e: "e \<in> set (entriesOf data)"
  shows "map item (case children (snd (snd e)) of None \<Rightarrow> [] | Some sibs \<Rightarrow> sibs) =
           kidsOf (item (snd (snd e)))"
    and "children (snd (snd e)) \<noteq> Some []"
proof -
  from cat_is_inode(1) [OF e [unfolded entriesOf_def]] obtain p d where
    n: "snd (snd e) = inode (item (snd (snd e))) p d (fst e)" by blast
  show "map item (case children (snd (snd e)) of None \<Rightarrow> [] | Some sibs \<Rightarrow> sibs) =
           kidsOf (item (snd (snd e)))"
    by (subst n) (auto simp: inode_children kidsOf_def inodes_item split: option.splits)
  show "children (snd (snd e)) \<noteq> Some []"
  proof -
    have "children (inode (item (snd (snd e))) p d (fst e)) \<noteq> Some []"
      by (cases "item (snd (snd e))") (auto simp: neq_Nil_conv split: option.splits list.splits)
    then show ?thesis using n by simp
  qed
qed

lemma entry_children_distinct:
  assumes uniq: "spec_uniqueIds data" and e: "e \<in> set (entriesOf data)"
    and c: "children (snd (snd e)) = Some sibs"
  shows "distinct (map (\<lambda>n. id' (item n)) sibs)"
proof -
  have d: "distinct (map (\<lambda>e. id' (snd e)) (spec_preorder [] data))"
    using uniq by (simp add: spec_uniqueIds_def spec_ids_def)
  have "distinct (map id' (kidsOf (item (snd (snd e)))))"
    using preorder_kids_distinct(1) [OF entry_in_preorder [OF e] d] by simp
  moreover have "map item sibs = kidsOf (item (snd (snd e)))"
    using entry_children(1) [OF e] c by simp
  ultimately have "distinct (map id' (map item sibs))" by simp
  then show ?thesis by (simp add: comp_def)
qed

lemma hovered_entry:
  assumes found: "find P (useSelectableItems (internalRootOf data) c) = Some overItem"
  shows "\<exists>e \<in> set (entriesOf data). \<exists>q \<in> set (entriesOf data).
           node overItem = snd (snd e) \<and> childOf e q"
proof -
  have "overItem \<in> set (fst (walk c (inode data None 0 0) ([], 0)))"
    using found by (auto simp: find_Some_iff useSelectableItems_def built_root)
  from walk_nodes(1) [OF this, of "[]"] obtain e where
    e: "e \<in> set (entriesOf data)" "node overItem = snd (snd e)" "depth (node overItem) > 0"
    by (auto simp: entriesOf_def)
  have "depth (snd (snd e)) = int (length (fst (snd e)))"
    using cat_depth(1) [OF e(1) [unfolded entriesOf_def]] by simp
  then have "fst (snd e) \<noteq> []" using e(2,3) by auto
  then have "e \<noteq> (0, [], inode data None 0 0)" by auto
  with cat_parent(1) [OF e(1) [unfolded entriesOf_def]] obtain q where
    "q \<in> set (entriesOf data)" "childOf e q" by (auto simp: entriesOf_def)
  then show ?thesis using e by blast
qed

lemma parent_of_entry:
  assumes "childOf e q" "q \<in> set (entriesOf data)"
  shows "parentOf (nodesOf data) (snd (snd e)) = Some (snd (snd q))"
  using assms built_nodes [of q data] by (simp add: childOf_def parentOf_def)

lemma hasAncestor_built:
  assumes "e \<in> set (entriesOf data)"
  shows "hasAncestor (nodesOf data) (Some (snd (snd e))) d =
           Some (d \<in> set (fst (snd e) @ [id' (item (snd (snd e)))]))"
proof (rule hasAncestor_entry)
  show "\<forall>e\<in>set (cat [] data None 0 0). nodesOf data (fst e) = Some (snd (snd e))"
    using built_nodes by (simp add: entriesOf_def)
  show "e \<in> set (cat [] data None 0 0)" using assms by (simp add: entriesOf_def)
qed

lemma target_parent_entry:
  assumes found: "find P (useSelectableItems (internalRootOf data) c) = Some overItem"
  shows "\<exists>p \<in> set (entriesOf data).
           targetParent (resolveTarget (nodesOf data) c' overItem r) = Some (snd (snd p))"
proof -
  from hovered_entry [OF found] obtain e q where
    e: "e \<in> set (entriesOf data)" and q: "q \<in> set (entriesOf data)"
    and n: "node overItem = snd (snd e)" and c: "childOf e q" by blast
  have par: "parentOf (nodesOf data) (snd (snd e)) = Some (snd (snd q))"
    by (rule parent_of_entry [OF c q])
  have "targetParent (resolveTarget (nodesOf data) c' overItem r) = Some (snd (snd q)) \<or>
        targetParent (resolveTarget (nodesOf data) c' overItem r) = Some (snd (snd e))"
    by (auto simp: resolveTarget_def Let_def par n)
  then show ?thesis using e q by blast
qed

lemma handleDragMove_node:
  assumes found: "find (\<lambda>s. id' (item (node s)) = oid)
                    (useSelectableItems (internalRootOf data) (collapsed st)) = Some overItem"
    and over: "over ev = Some oid" and ratio: "ratio ev = Some r"
    and nc: "oid \<noteq> ''__catch_zone_start__''" "oid \<noteq> ''__catch_zone_end__''"
  shows "\<exists>p \<in> set (entriesOf data).
           targetParent (resolveTarget (nodesOf data) (collapsed st) overItem r) = Some (snd (snd p)) \<and>
           handleDragMove (nodesOf data) (internalRootOf data) ev st =
             Some (if \<exists>d \<in> set (draggingIds st). d \<in> set (fst (snd p) @ [id' (item (snd (snd p)))])
                   then st
                   else setHoveredParent
                          (hoveredOf (resolveTarget (nodesOf data) (collapsed st) overItem r)) st)"
proof -
  let ?t = "resolveTarget (nodesOf data) (collapsed st) overItem r"
  from target_parent_entry [OF found, of "collapsed st" r] obtain p where
    p: "p \<in> set (entriesOf data)" and tp: "targetParent ?t = Some (snd (snd p))" by blast
  have any: "anyHasAncestor (nodesOf data) (Some (snd (snd p))) (draggingIds st) =
      Some (\<exists>d \<in> set (draggingIds st). d \<in> set (fst (snd p) @ [id' (item (snd (snd p)))]))"
    by (rule anyHasAncestor_total) (rule hasAncestor_built [OF p])
  have "handleDragMove (nodesOf data) (internalRootOf data) ev st =
      Some (if \<exists>d \<in> set (draggingIds st). d \<in> set (fst (snd p) @ [id' (item (snd (snd p)))])
            then st else setHoveredParent (hoveredOf ?t) st)"
    using nc
    by (simp add: handleDragMove_def Let_def over ratio found tp any hoveredOf_def
        split: bool.splits)
  then show ?thesis using p tp by blast
qed

lemma spec_ids_root: "spec_ids data = id' data # spec_itemIds data"
  by (cases data) (simp add: spec_ids_def spec_itemIds_def)

lemma root_not_item:
  "spec_uniqueIds data \<Longrightarrow> set ds \<subseteq> set (spec_itemIds data) \<Longrightarrow> id' data \<notin> set ds"
  using spec_ids_root [of data] by (auto simp: spec_uniqueIds_def)

lemma chainIds_root: "spec_chainIds data (id' data) = [id' data]"
  by (cases data) (simp add: spec_chainIds_def)

lemma entry_id_in_ids:
  "e \<in> set (entriesOf data) \<Longrightarrow> id' (item (snd (snd e))) \<in> set (spec_ids data)"
proof -
  assume "e \<in> set (entriesOf data)"
  from entry_in_preorder [OF this]
  have "id' (snd (fst (snd e), item (snd (snd e)))) \<in> (\<lambda>e. id' (snd e)) ` set (spec_preorder [] data)"
    by (rule imageI)
  then show ?thesis by (simp add: spec_ids_def)
qed

lemma handleDragMove_cases:
  "(over ev = None \<and>
      handleDragMove (nodesOf data) (internalRootOf data) ev st =
        Some (setHoveredParent initialHoveredParent st)) \<or>
   (\<exists>hp. parentId hp = Some (id' data) \<and>
      handleDragMove (nodesOf data) (internalRootOf data) ev st = Some (setHoveredParent hp st)) \<or>
   handleDragMove (nodesOf data) (internalRootOf data) ev st = Some st \<or>
   (\<exists>oid overItem r.
      over ev = Some oid \<and> oid \<noteq> ''__catch_zone_start__'' \<and> oid \<noteq> ''__catch_zone_end__'' \<and>
      find (\<lambda>s. id' (item (node s)) = oid)
        (useSelectableItems (internalRootOf data) (collapsed st)) = Some overItem \<and>
      ratio ev = Some r)"
proof (cases "over ev")
  case None
  then show ?thesis by (simp add: handleDragMove_def initialHoveredParent_def)
next
  case (Some oid)
  have rootid: "id' (item (internalRootOf data)) = id' data"
    by (simp add: built_root inode_fields)
  show ?thesis
  proof (cases "oid = ''__catch_zone_start__'' \<or> oid = ''__catch_zone_end__''")
    case True
    define hp where "hp =
      (if oid = ''__catch_zone_start__'' then
         \<lparr>parentId = Some (id' (item (internalRootOf data))),
          parentDepth = Some (depth (internalRootOf data)), HoveredParent.index = Some 0,
          childIndex = Some 0, dropIntent = Some above\<rparr>
       else
         \<lparr>parentId = Some (id' (item (internalRootOf data))),
          parentDepth = Some (depth (internalRootOf data)),
          HoveredParent.index =
            Some (int (length (useSelectableItems (internalRootOf data) (collapsed st)))),
          childIndex =
            Some (case children (internalRootOf data) of None \<Rightarrow> 0 | Some cs \<Rightarrow> int (length cs)),
          dropIntent = Some below\<rparr>)"
    have "parentId hp = Some (id' data)" using rootid by (simp add: hp_def)
    moreover have "handleDragMove (nodesOf data) (internalRootOf data) ev st =
        Some (setHoveredParent hp st)"
      using Some True by (auto simp: handleDragMove_def Let_def hp_def)
    ultimately show ?thesis by blast
  next
    case False
    show ?thesis
    proof (cases "find (\<lambda>s. id' (item (node s)) = oid)
        (useSelectableItems (internalRootOf data) (collapsed st))")
      case None
      then have "handleDragMove (nodesOf data) (internalRootOf data) ev st = Some st"
        using Some False by (simp add: handleDragMove_def Let_def)
      then show ?thesis by blast
    next
      case found: (Some overItem)
      show ?thesis
      proof (cases "ratio ev")
        case None
        then have "handleDragMove (nodesOf data) (internalRootOf data) ev st = Some st"
          using Some False found by (simp add: handleDragMove_def Let_def)
        then show ?thesis by blast
      next
        case r: (Some r)
        show ?thesis using Some False found r by blast
      qed
    qed
  qed
qed

section \<open>Cycle validation\<close>

text \<open>
  C3. The tree is built from a raw tree with unique ids, and the dragged ids are ids of
  items (nodes other than the root, which is never rendered and so never dragged). For
  every drag-move event: if the event is over a node and an id in the dragged ids occurs
  on the ancestor chain of the resolved target parent, the parent itself included, the
  handler returns with the store exactly as it was. Consequently the handler always
  returns, and the store it leaves is either the store as it was, or differs from it in
  the hovered target only, and then a parent id in the hovered target is the id of a node
  of the tree whose ancestor chain, the node included, holds no dragged id: it names
  neither a dragged node nor a descendant of one.
\<close>

theorem cycle_validation:
  assumes uniq: "spec_uniqueIds data"
    and dragged: "set (draggingIds st) \<subseteq> set (spec_itemIds data)"
  shows "(\<forall>oid overItem r tp.
            over ev = Some oid \<and> oid \<noteq> ''__catch_zone_start__'' \<and> oid \<noteq> ''__catch_zone_end__'' \<and>
            find (\<lambda>s. id' (item (node s)) = oid)
              (useSelectableItems (internalRootOf data) (collapsed st)) = Some overItem \<and>
            ratio ev = Some r \<and>
            targetParent (resolveTarget (nodesOf data) (collapsed st) overItem r) = Some tp \<and>
            (\<exists>d \<in> set (draggingIds st). d \<in> set (spec_chainIds data (id' (item tp)))) \<longrightarrow>
            handleDragMove (nodesOf data) (internalRootOf data) ev st = Some st) \<and>
         (\<exists>st'. handleDragMove (nodesOf data) (internalRootOf data) ev st = Some st' \<and>
            (st' = st \<or>
             st' = st\<lparr>hoveredParent := hoveredParent st'\<rparr> \<and>
             (\<forall>pid. parentId (hoveredParent st') = Some pid \<longrightarrow>
                pid \<in> set (spec_ids data) \<and>
                (\<forall>d \<in> set (draggingIds st). d \<notin> set (spec_chainIds data pid)))))"
proof (intro conjI allI impI)
  fix oid overItem r tp
  assume h: "over ev = Some oid \<and> oid \<noteq> ''__catch_zone_start__'' \<and> oid \<noteq> ''__catch_zone_end__'' \<and>
      find (\<lambda>s. id' (item (node s)) = oid)
        (useSelectableItems (internalRootOf data) (collapsed st)) = Some overItem \<and>
      ratio ev = Some r \<and>
      targetParent (resolveTarget (nodesOf data) (collapsed st) overItem r) = Some tp \<and>
      (\<exists>d \<in> set (draggingIds st). d \<in> set (spec_chainIds data (id' (item tp))))"
  from handleDragMove_node [of oid data st overItem ev r] h obtain p where
    p: "p \<in> set (entriesOf data)"
    and tp: "targetParent (resolveTarget (nodesOf data) (collapsed st) overItem r) = Some (snd (snd p))"
    and res: "handleDragMove (nodesOf data) (internalRootOf data) ev st =
        Some (if \<exists>d \<in> set (draggingIds st). d \<in> set (fst (snd p) @ [id' (item (snd (snd p)))])
              then st
              else setHoveredParent
                     (hoveredOf (resolveTarget (nodesOf data) (collapsed st) overItem r)) st)"
    by blast
  have "tp = snd (snd p)" using tp h by simp
  then have "spec_chainIds data (id' (item tp)) = fst (snd p) @ [id' (item (snd (snd p)))]"
    using chainIds_entry [OF uniq p] by simp
  then show "handleDragMove (nodesOf data) (internalRootOf data) ev st = Some st"
    using res h by simp
next
  have rootfree: "id' data \<notin> set (draggingIds st)" by (rule root_not_item [OF uniq dragged])
  have rootin: "id' data \<in> set (spec_ids data)" by (simp add: spec_ids_root)
  let ?P = "\<lambda>st'. st' = st \<or>
             st' = st\<lparr>hoveredParent := hoveredParent st'\<rparr> \<and>
             (\<forall>pid. parentId (hoveredParent st') = Some pid \<longrightarrow>
                pid \<in> set (spec_ids data) \<and>
                (\<forall>d \<in> set (draggingIds st). d \<notin> set (spec_chainIds data pid)))"
  from handleDragMove_cases [of ev data st]
  consider
    (none) "handleDragMove (nodesOf data) (internalRootOf data) ev st =
        Some (setHoveredParent initialHoveredParent st)"
    | (catch) hp where "parentId hp = Some (id' data)"
        "handleDragMove (nodesOf data) (internalRootOf data) ev st = Some (setHoveredParent hp st)"
    | (same) "handleDragMove (nodesOf data) (internalRootOf data) ev st = Some st"
    | (node) oid overItem r where "over ev = Some oid" "oid \<noteq> ''__catch_zone_start__''"
        "oid \<noteq> ''__catch_zone_end__''"
        "find (\<lambda>s. id' (item (node s)) = oid)
           (useSelectableItems (internalRootOf data) (collapsed st)) = Some overItem"
        "ratio ev = Some r"
    by blast
  then show "\<exists>st'. handleDragMove (nodesOf data) (internalRootOf data) ev st = Some st' \<and> ?P st'"
  proof cases
    case none
    have "?P (setHoveredParent initialHoveredParent st)"
      by (simp add: setHoveredParent_def initialHoveredParent_def)
    then show ?thesis using none by blast
  next
    case catch
    have "?P (setHoveredParent hp st)"
      using catch(1) rootfree rootin by (auto simp: setHoveredParent_def chainIds_root)
    then show ?thesis using catch(2) by blast
  next
    case same
    then show ?thesis by blast
  next
    case node
    let ?t = "resolveTarget (nodesOf data) (collapsed st) overItem r"
    from handleDragMove_node [OF node(4) node(1) node(5) node(2) node(3)] obtain p where
      p: "p \<in> set (entriesOf data)" and tp: "targetParent ?t = Some (snd (snd p))"
      and res: "handleDragMove (nodesOf data) (internalRootOf data) ev st =
        Some (if \<exists>d \<in> set (draggingIds st). d \<in> set (fst (snd p) @ [id' (item (snd (snd p)))])
              then st else setHoveredParent (hoveredOf ?t) st)"
      by blast
    have chain: "spec_chainIds data (id' (item (snd (snd p)))) = fst (snd p) @ [id' (item (snd (snd p)))]"
      by (rule chainIds_entry [OF uniq p])
    show ?thesis
    proof (cases "\<exists>d \<in> set (draggingIds st). d \<in> set (fst (snd p) @ [id' (item (snd (snd p)))])")
      case True
      then show ?thesis using res by simp
    next
      case False
      have pid: "parentId (hoveredOf ?t) = Some (id' (item (snd (snd p))))"
        by (simp add: hoveredOf_def tp)
      have "?P (setHoveredParent (hoveredOf ?t) st)"
        using False chain pid entry_id_in_ids [OF p] by (auto simp: setHoveredParent_def)
      then show ?thesis using res False by simp
    qed
  qed
qed

theorem cycle_validation_witness:
  "spec_uniqueIds scenario \<and>
   set (draggingIds draggingA) \<subseteq> set (spec_itemIds scenario) \<and>
   ''A'' \<in> set (spec_chainIds scenario ''A'') \<and>
   parentId (hoveredParent draggingA) = Some ''root'' \<and>
   handleDragMove (nodesOf scenario) (internalRootOf scenario) overA1Top draggingA = Some draggingA"
proof -
  let ?items = "useSelectableItems (internalRootOf scenario) (collapsed draggingA)"
  let ?overItem = "the (find (\<lambda>s. id' (item (node s)) = ''A1'') ?items)"
  let ?t = "resolveTarget (nodesOf scenario) (collapsed draggingA) ?overItem (Num 0.3)"
  let ?tp = "the (targetParent ?t)"
  have u: "spec_uniqueIds scenario" by code_simp
  have d: "set (draggingIds draggingA) \<subseteq> set (spec_itemIds scenario)" by code_simp
  have c: "''A'' \<in> set (spec_chainIds scenario ''A'')" by code_simp
  have hp: "parentId (hoveredParent draggingA) = Some ''root''" by code_simp
  have p1: "over overA1Top = Some ''A1''" by (simp add: overA1Top_def)
  have p2: "''A1'' \<noteq> ''__catch_zone_start__''" "''A1'' \<noteq> ''__catch_zone_end__''" by simp_all
  have p3: "find (\<lambda>s. id' (item (node s)) = ''A1'') ?items = Some ?overItem" by code_simp
  have p4: "ratio overA1Top = Some (Num 0.3)" by (simp add: overA1Top_def)
  have p5: "targetParent ?t = Some ?tp" by code_simp
  have p6: "\<exists>d \<in> set (draggingIds draggingA). d \<in> set (spec_chainIds scenario (id' (item ?tp)))"
    by code_simp
  from cycle_validation [OF u d, of overA1Top]
  have "over overA1Top = Some ''A1'' \<and> ''A1'' \<noteq> ''__catch_zone_start__'' \<and>
        ''A1'' \<noteq> ''__catch_zone_end__'' \<and>
        find (\<lambda>s. id' (item (node s)) = ''A1'') ?items = Some ?overItem \<and>
        ratio overA1Top = Some (Num 0.3) \<and> targetParent ?t = Some ?tp \<and>
        (\<exists>d \<in> set (draggingIds draggingA). d \<in> set (spec_chainIds scenario (id' (item ?tp)))) \<longrightarrow>
        handleDragMove (nodesOf scenario) (internalRootOf scenario) overA1Top draggingA =
          Some draggingA"
    by blast
  then have "handleDragMove (nodesOf scenario) (internalRootOf scenario) overA1Top draggingA =
      Some draggingA"
    using p1 p2 p3 p4 p5 p6 by blast
  then show ?thesis using u d c hp by blast
qed

section \<open>The removal loop and the emitted payload\<close>

lemma findIndex_split:
  assumes "findIndex P xs \<noteq> -1"
  shows "\<exists>as x bs. xs = as @ x # bs \<and> P x \<and> (\<forall>y \<in> set as. \<not> P y) \<and>
           findIndex P xs = int (length as)"
  using assms
proof (induction xs)
  case Nil
  then show ?case by simp
next
  case (Cons y ys)
  show ?case
  proof (cases "P y")
    case True
    then have "y # ys = [] @ y # ys \<and> P y \<and> (\<forall>z \<in> set []. \<not> P z) \<and>
        findIndex P (y # ys) = int (length ([]::'a list))" by simp
    then show ?thesis by blast
  next
    case False
    with Cons.prems have ne: "findIndex P ys \<noteq> -1" by (auto simp: Let_def)
    from Cons.IH [OF ne] obtain as x bs where
      h: "ys = as @ x # bs" "P x" "\<forall>y \<in> set as. \<not> P y" "findIndex P ys = int (length as)"
      by blast
    have "y # ys = (y # as) @ x # bs \<and> P x \<and> (\<forall>z \<in> set (y # as). \<not> P z) \<and>
        findIndex P (y # ys) = int (length (y # as))"
      using h False ne by (simp add: Let_def)
    then show ?thesis by blast
  qed
qed

lemma splice1_split: "splice1 (as @ x # bs) (int (length as)) = as @ bs"
  by (simp add: splice1_def)

lemma removeDragged_char:
  assumes "distinct (map (\<lambda>c. id' (item c)) cur)"
  shows "removeDragged ns (cur, ins) =
           (filter (\<lambda>c. id' (item c) \<notin> set (map (\<lambda>n. id' (item n)) ns)) cur,
            ins - int (length (filter (\<lambda>c. id' (item c) \<in> set (map (\<lambda>n. id' (item n)) ns))
                                 (take (nat ins) cur))))"
  using assms
proof (induction ns arbitrary: cur ins)
  case Nil
  then show ?case by simp
next
  case (Cons n ns)
  let ?f = "\<lambda>c. id' (item c)"
  let ?D = "set (map ?f ns)"
  let ?e = "findIndex (\<lambda>child. ?f child = ?f n) cur"
  show ?case
  proof (cases "?e = -1")
    case True
    then have none: "\<forall>c \<in> set cur. ?f c \<noteq> ?f n" by (simp add: findIndex_none_iff)
    have f1: "filter (\<lambda>c. ?f c \<notin> set (map ?f (n # ns))) cur = filter (\<lambda>c. ?f c \<notin> ?D) cur"
      using none by (intro filter_cong) auto
    have "\<forall>c \<in> set (take (nat ins) cur). ?f c \<noteq> ?f n" using none by (meson in_set_takeD)
    then have f2: "filter (\<lambda>c. ?f c \<in> set (map ?f (n # ns))) (take (nat ins) cur) =
        filter (\<lambda>c. ?f c \<in> ?D) (take (nat ins) cur)"
      by (intro filter_cong) auto
    have "removeDragged (n # ns) (cur, ins) = removeDragged ns (cur, ins)"
      using True by (simp add: Let_def)
    then show ?thesis unfolding f1 f2 using Cons.IH [OF Cons.prems] by simp
  next
    case False
    from findIndex_split [OF False] obtain as x bs where
      h: "cur = as @ x # bs" "?f x = ?f n" "\<forall>y \<in> set as. ?f y \<noteq> ?f n" "?e = int (length as)"
      by blast
    have d: "distinct (map ?f (as @ x # bs))" using Cons.prems h(1) by simp
    then have d': "distinct (map ?f (as @ bs))" by simp
    have "?f x \<notin> ?f ` set bs" using d by simp
    then have nb: "\<forall>y \<in> set bs. ?f y \<noteq> ?f n" unfolding h(2) by (metis imageI)
    have "splice1 cur (int (length as)) = as @ bs" unfolding h(1) by (rule splice1_split)
    then have sp: "splice1 cur ?e = as @ bs" by (simp only: h(4))
    let ?ins' = "if ?e < ins then ins - 1 else ins"
    have step: "removeDragged (n # ns) (cur, ins) = removeDragged ns (as @ bs, ?ins')"
      using False sp by (simp add: Let_def)
    have ih: "removeDragged ns (as @ bs, ?ins') =
        (filter (\<lambda>c. ?f c \<notin> ?D) (as @ bs),
         ?ins' - int (length (filter (\<lambda>c. ?f c \<in> ?D) (take (nat ?ins') (as @ bs)))))"
      by (rule Cons.IH [OF d'])
    have fa: "filter (\<lambda>c. ?f c \<notin> set (map ?f (n # ns))) as = filter (\<lambda>c. ?f c \<notin> ?D) as"
      using h(3) by (intro filter_cong) auto
    have fb: "filter (\<lambda>c. ?f c \<notin> set (map ?f (n # ns))) bs = filter (\<lambda>c. ?f c \<notin> ?D) bs"
      using nb by (intro filter_cong) auto
    have f1: "filter (\<lambda>c. ?f c \<notin> set (map ?f (n # ns))) cur = filter (\<lambda>c. ?f c \<notin> ?D) (as @ bs)"
      unfolding h(1) using fa fb h(2) by simp
    have inA: "filter (\<lambda>c. ?f c \<in> set (map ?f (n # ns))) zs = filter (\<lambda>c. ?f c \<in> ?D) zs"
      if "\<forall>y \<in> set zs. ?f y \<noteq> ?f n" for zs
      using that by (intro filter_cong) auto
    have f2: "ins - int (length (filter (\<lambda>c. ?f c \<in> set (map ?f (n # ns))) (take (nat ins) cur))) =
        ?ins' - int (length (filter (\<lambda>c. ?f c \<in> ?D) (take (nat ?ins') (as @ bs))))"
    proof (cases "?e < ins")
      case True
      then have lt: "length as < nat ins" using h(4) by simp
      define m where "m = nat ins - length as - 1"
      have m: "nat ins = length as + Suc m" using lt by (simp add: m_def)
      have m': "nat (ins - 1) = length as + m" using m by simp
      have t1: "take (nat ins) cur = as @ x # take m bs" unfolding h(1) m by simp
      have t2: "take (nat (ins - 1)) (as @ bs) = as @ take m bs" unfolding m' by simp
      have tb: "\<forall>y \<in> set (take m bs). ?f y \<noteq> ?f n" using nb by (meson in_set_takeD)
      have F: "filter (\<lambda>c. ?f c \<in> set (map ?f (n # ns))) (as @ x # take m bs) =
          filter (\<lambda>c. ?f c \<in> ?D) as @ x # filter (\<lambda>c. ?f c \<in> ?D) (take m bs)"
        using inA [OF h(3)] inA [OF tb] h(2) by simp
      have L1: "length (filter (\<lambda>c. ?f c \<in> set (map ?f (n # ns))) (take (nat ins) cur)) =
          Suc (length (filter (\<lambda>c. ?f c \<in> ?D) (take (nat (ins - 1)) (as @ bs))))"
        by (simp only: t1 t2 F) simp
      have I: "?ins' = ins - 1" using True by (simp only: if_True)
      show ?thesis unfolding I L1 by simp
    next
      case False
      then have le: "nat ins \<le> length as" using h(4) by simp
      have t1: "take (nat ins) cur = take (nat ins) as" unfolding h(1) using le by simp
      have t2: "take (nat ins) (as @ bs) = take (nat ins) as" using le by simp
      have ta: "\<forall>y \<in> set (take (nat ins) as). ?f y \<noteq> ?f n" using h(3) by (meson in_set_takeD)
      have L2: "filter (\<lambda>c. ?f c \<in> set (map ?f (n # ns))) (take (nat ins) cur) =
          filter (\<lambda>c. ?f c \<in> ?D) (take (nat ins) (as @ bs))"
        by (simp only: t1 t2 inA [OF ta])
      have I: "?ins' = ins" using False by (simp only: if_False)
      show ?thesis by (simp only: I L2)
    qed
    show ?thesis unfolding step ih f1 using f2 by simp
  qed
qed

lemma draggedNodes_ids:
  "map (\<lambda>n. id' (item n)) (draggedNodesOf xs ds) = filter (\<lambda>i. i \<in> set (flatIds xs)) ds"
proof (induction ds)
  case Nil
  then show ?case by (simp add: draggedNodesOf_def List.map_filter_simps)
next
  case (Cons d ds)
  show ?case
  proof (cases "find (\<lambda>s. id' (item (node s)) = d) xs")
    case None
    then have "d \<notin> set (flatIds xs)" by (auto simp: find_None_iff flatIds_def)
    then show ?thesis using Cons None by (simp add: draggedNodesOf_def List.map_filter_simps)
  next
    case (Some s)
    then have "id' (item (node s)) = d" "s \<in> set xs" by (auto simp: find_Some_iff)
    then have "d \<in> set (flatIds xs)" "id' (item (node s)) = d" by (auto simp: flatIds_def)
    then show ?thesis using Cons Some by (simp add: draggedNodesOf_def List.map_filter_simps)
  qed
qed

lemma dragEndPayload_cases:
  "dragEndPayload (nodesOf data) (internalRootOf data) ov st = Some None \<or>
   (\<exists>e k pid.
      e \<in> set (entriesOf data) \<and> ov \<and>
      parentId (hoveredParent st) = Some pid \<and> id' (item (snd (snd e))) = pid \<and>
      childIndex (hoveredParent st) = Some k \<and>
      (let tp = snd (snd e);
           valid = filter (\<lambda>n. id' (item n) \<notin> set (fst (snd e) @ [pid]))
                     (draggedNodesOf (useSelectableItems (internalRootOf data) (collapsed st))
                        (draggingIds st));
           r = removeDragged valid (case children tp of None \<Rightarrow> [] | Some cs \<Rightarrow> cs, k)
       in valid \<noteq> [] \<and>
          dragEndPayload (nodesOf data) (internalRootOf data) ov st =
            Some (Some \<lparr>items = map item valid, DragEndPayload.parent = item tp,
                         DragEndPayload.children = map item (fst r), insertAt = snd r\<rparr>)))"
proof (cases "\<not> ov \<or> \<not> truthy (parentId (hoveredParent st)) \<or> childIndex (hoveredParent st) = None")
  case True
  then have "dragEndPayload (nodesOf data) (internalRootOf data) ov st = Some None"
    unfolding dragEndPayload_def Let_def by (simp only: if_True)
  then show ?thesis by blast
next
  case False
  then obtain pid k where ov: ov and pid: "parentId (hoveredParent st) = Some pid"
    and k: "childIndex (hoveredParent st) = Some k"
    by (auto simp: truthy_def split: option.splits)
  let ?xs = "useSelectableItems (internalRootOf data) (collapsed st)"
  let ?dragged = "draggedNodesOf ?xs (draggingIds st)"
  show ?thesis
  proof (cases "findNodeById (internalRootOf data) pid")
    case None
    have "dragEndPayload (nodesOf data) (internalRootOf data) ov st = Some None"
      unfolding dragEndPayload_def Let_def using False None pid by simp
    then show ?thesis by blast
  next
    case (Some tp)
    from findNodeById_entry(1) [of data None 0 0 pid tp "[]"] Some
    obtain e where e: "e \<in> set (entriesOf data)" "tp = snd (snd e)" "id' (item tp) = pid"
      by (auto simp: built_root entriesOf_def)
    let ?S = "set (fst (snd e) @ [pid])"
    have ha: "\<And>d. hasAncestor (nodesOf data) (Some tp) d = Some (d \<in> ?S)"
      using hasAncestor_built [OF e(1)] e(2,3) by simp
    have fv: "filterValid (nodesOf data) tp ?dragged = Some (filter (\<lambda>n. id' (item n) \<notin> ?S) ?dragged)"
      by (rule filterValid_total [OF ha]) (simp add: e(3))
    let ?valid = "filter (\<lambda>n. id' (item n) \<notin> ?S) ?dragged"
    show ?thesis
    proof (cases "?valid = []")
      case True
      have "dragEndPayload (nodesOf data) (internalRootOf data) ov st = Some None"
        unfolding dragEndPayload_def Let_def draggedNodesOf_def [symmetric]
        using False Some pid fv True by simp
      then show ?thesis by blast
    next
      case nonempty: False
      then have d: "?dragged \<noteq> []" by auto
      let ?r = "removeDragged ?valid (case children tp of None \<Rightarrow> [] | Some cs \<Rightarrow> cs, k)"
      have "dragEndPayload (nodesOf data) (internalRootOf data) ov st =
          Some (Some \<lparr>items = map item ?valid, DragEndPayload.parent = item tp,
                       DragEndPayload.children = map item (fst ?r), insertAt = snd ?r\<rparr>)"
        unfolding dragEndPayload_def Let_def draggedNodesOf_def [symmetric]
        using False Some pid k fv nonempty d by (simp add: case_prod_beta)
      then show ?thesis using e ov pid k nonempty unfolding Let_def by blast
    qed
  qed
qed

lemma findIndex_nonneg: "findIndex P xs \<noteq> -1 \<Longrightarrow> 0 \<le> findIndex P xs"
  using findIndex_ge [of P xs] by arith

lemma getChildIndex_nonneg: "0 \<le> getChildIndex tbl n"
  by (auto simp: getChildIndex_def Let_def findIndex_nonneg split: option.splits)

text \<open>A child index that the drag-move handler stores is never negative.\<close>

lemma handleDragMove_childIndex_nonneg:
  assumes "handleDragMove tbl rt ev st = Some st'"
    and "\<forall>k. childIndex (hoveredParent st) = Some k \<longrightarrow> 0 \<le> k"
  shows "\<forall>k. childIndex (hoveredParent st') = Some k \<longrightarrow> 0 \<le> k"
proof -
  have t: "0 \<le> targetChildIndex (resolveTarget tbl c overItem r)" for c overItem r
    using getChildIndex_nonneg [of tbl "node overItem"]
    by (auto simp: resolveTarget_def Let_def)
  show ?thesis
    using assms t
    by (auto simp: handleDragMove_def Let_def setHoveredParent_def
        split: option.splits if_splits bool.splits)
qed

lemma emitted_payload:
  assumes uniq: "spec_uniqueIds data"
    and emitted: "dragEndPayload (nodesOf data) (internalRootOf data) ov st = Some (Some p)"
  shows "\<exists>k pid.
           parentId (hoveredParent st) = Some pid \<and> childIndex (hoveredParent st) = Some k \<and>
           id' (DragEndPayload.parent p) = pid \<and>
           DragEndPayload.parent p \<in> set (map snd (spec_preorder [] data)) \<and>
           items p \<noteq> [] \<and>
           map id' (items p) =
             filter (\<lambda>i. i \<in> set (flatIds (useSelectableItems (internalRootOf data) (collapsed st))) \<and>
                         i \<notin> set (spec_chainIds data pid))
               (draggingIds st) \<and>
           distinct (map id' (kidsOf (DragEndPayload.parent p))) \<and>
           DragEndPayload.children p =
             filter (\<lambda>c. id' c \<notin> set (map id' (items p))) (kidsOf (DragEndPayload.parent p)) \<and>
           insertAt p =
             k - int (length (filter (\<lambda>c. id' c \<in> set (map id' (items p)))
                                (take (nat k) (kidsOf (DragEndPayload.parent p)))))"
proof -
  let ?xs = "useSelectableItems (internalRootOf data) (collapsed st)"
  from dragEndPayload_cases [of data ov st] emitted obtain e k pid where
    e: "e \<in> set (entriesOf data)" and pid: "parentId (hoveredParent st) = Some pid"
    and idtp: "id' (item (snd (snd e))) = pid" and k: "childIndex (hoveredParent st) = Some k"
    and rest: "(let tp = snd (snd e);
           valid = filter (\<lambda>n. id' (item n) \<notin> set (fst (snd e) @ [pid]))
                     (draggedNodesOf ?xs (draggingIds st));
           r = removeDragged valid (case children tp of None \<Rightarrow> [] | Some cs \<Rightarrow> cs, k)
       in valid \<noteq> [] \<and>
          dragEndPayload (nodesOf data) (internalRootOf data) ov st =
            Some (Some \<lparr>items = map item valid, DragEndPayload.parent = item tp,
                         DragEndPayload.children = map item (fst r), insertAt = snd r\<rparr>))"
    by auto
  define tp where "tp = snd (snd e)"
  define valid where "valid = filter (\<lambda>n. id' (item n) \<notin> set (fst (snd e) @ [pid]))
      (draggedNodesOf ?xs (draggingIds st))"
  define kids where "kids = (case children tp of None \<Rightarrow> [] | Some cs \<Rightarrow> cs)"
  define r where "r = removeDragged valid (kids, k)"
  from rest have ne: "valid \<noteq> []"
    and p: "p = \<lparr>items = map item valid, DragEndPayload.parent = item tp,
                 DragEndPayload.children = map item (fst r), insertAt = snd r\<rparr>"
    using emitted unfolding Let_def tp_def valid_def kids_def r_def by simp_all
  have chain: "spec_chainIds data pid = fst (snd e) @ [pid]"
    using chainIds_entry [OF uniq e] idtp by simp
  have ids: "map (\<lambda>n. id' (item n)) valid =
      filter (\<lambda>i. i \<in> set (flatIds ?xs) \<and> i \<notin> set (spec_chainIds data pid)) (draggingIds st)"
  proof -
    have "map (\<lambda>n. id' (item n)) valid =
        filter (\<lambda>i. i \<notin> set (fst (snd e) @ [pid])) (map (\<lambda>n. id' (item n)) (draggedNodesOf ?xs (draggingIds st)))"
      unfolding valid_def by (simp add: filter_map comp_def)
    then show ?thesis unfolding draggedNodes_ids chain by (simp add: conj_commute)
  qed
  have itemsids: "map id' (items p) = map (\<lambda>n. id' (item n)) valid" by (simp add: p comp_def)
  have kidsraw: "map item kids = kidsOf (item tp)"
    using entry_children(1) [OF e] by (simp add: kids_def tp_def)
  have dk: "distinct (map (\<lambda>c. id' (item c)) kids)"
  proof (cases "children tp")
    case None
    then show ?thesis by (simp add: kids_def)
  next
    case (Some sibs)
    then show ?thesis using entry_children_distinct [OF uniq e] by (simp add: kids_def tp_def)
  qed
  have dkraw: "distinct (map id' (kidsOf (item tp)))"
    using dk kidsraw [symmetric] by (simp add: comp_def)
  let ?D = "set (map (\<lambda>n. id' (item n)) valid)"
  have rc: "r = (filter (\<lambda>c. id' (item c) \<notin> ?D) kids,
                 k - int (length (filter (\<lambda>c. id' (item c) \<in> ?D) (take (nat k) kids))))"
    unfolding r_def by (rule removeDragged_char [OF dk])
  have ch: "map item (fst r) = filter (\<lambda>c. id' c \<notin> ?D) (kidsOf (item tp))"
    unfolding rc kidsraw [symmetric] by (simp add: filter_map comp_def)
  have ia: "snd r = k - int (length (filter (\<lambda>c. id' c \<in> ?D) (take (nat k) (kidsOf (item tp)))))"
    unfolding rc kidsraw [symmetric] by (simp add: filter_map comp_def take_map)
  have innode: "item tp \<in> set (map snd (spec_preorder [] data))"
    using entry_in_preorder [OF e] by (force simp: tp_def)
  have "parentId (hoveredParent st) = Some pid \<and> childIndex (hoveredParent st) = Some k \<and>
      id' (DragEndPayload.parent p) = pid \<and>
      DragEndPayload.parent p \<in> set (map snd (spec_preorder [] data)) \<and>
      items p \<noteq> [] \<and>
      map id' (items p) =
        filter (\<lambda>i. i \<in> set (flatIds ?xs) \<and> i \<notin> set (spec_chainIds data pid)) (draggingIds st) \<and>
      distinct (map id' (kidsOf (DragEndPayload.parent p))) \<and>
      DragEndPayload.children p =
        filter (\<lambda>c. id' c \<notin> set (map id' (items p))) (kidsOf (DragEndPayload.parent p)) \<and>
      insertAt p =
        k - int (length (filter (\<lambda>c. id' c \<in> set (map id' (items p)))
                           (take (nat k) (kidsOf (DragEndPayload.parent p)))))"
    unfolding itemsids ids [symmetric]
    using pid k idtp innode ne dkraw ch ia by (simp add: p tp_def)
  then show ?thesis by blast
qed

section \<open>Drag completion\<close>



text \<open>
  C10. The tree is built from a raw tree with unique ids. The completion resolver always
  returns, and every payload it emits has items, has no item among its children (not
  even one with the id of an item), and, if the child index \<open>k\<close> of the hovered target
  is a position of the parent's child list or its length (\<open>0 \<le> k\<close>, which holds for
  every child index the drag-move handler stores, and \<open>k\<close> at most the number of the
  parent's children), has \<open>0 \<le> insertAt \<le> length children\<close>.
\<close>

theorem payload_well_formed:
  assumes uniq: "spec_uniqueIds data"
  shows "(\<exists>r. dragEndPayload (nodesOf data) (internalRootOf data) ov st = Some r) \<and>
         (\<forall>p. dragEndPayload (nodesOf data) (internalRootOf data) ov st = Some (Some p) \<longrightarrow>
            items p \<noteq> [] \<and>
            set (map id' (items p)) \<inter> set (map id' (DragEndPayload.children p)) = {} \<and>
            set (items p) \<inter> set (DragEndPayload.children p) = {} \<and>
            (\<forall>k. childIndex (hoveredParent st) = Some k \<and> 0 \<le> k \<and>
                  k \<le> int (length (kidsOf (DragEndPayload.parent p))) \<longrightarrow>
                  0 \<le> insertAt p \<and> insertAt p \<le> int (length (DragEndPayload.children p))))"
proof (intro conjI allI impI)
  show "\<exists>r. dragEndPayload (nodesOf data) (internalRootOf data) ov st = Some r"
    using dragEndPayload_cases [of data ov st] unfolding Let_def by blast
next
  fix p
  assume emitted: "dragEndPayload (nodesOf data) (internalRootOf data) ov st = Some (Some p)"
  let ?kids = "kidsOf (DragEndPayload.parent p)"
  let ?D = "\<lambda>c. id' c \<in> set (map id' (items p))"
  from emitted_payload [OF uniq emitted] obtain k0 where
    k0: "childIndex (hoveredParent st) = Some k0"
    and ne: "items p \<noteq> []"
    and ch: "DragEndPayload.children p = filter (\<lambda>c. \<not> ?D c) ?kids"
    and ia: "insertAt p = k0 - int (length (filter ?D (take (nat k0) ?kids)))"
    by auto
  show "items p \<noteq> []" by (rule ne)
  show idsdisj: "set (map id' (items p)) \<inter> set (map id' (DragEndPayload.children p)) = {}"
    unfolding ch by (auto simp: image_iff)
  show "set (items p) \<inter> set (DragEndPayload.children p) = {}"
    using idsdisj by auto
  fix k
  assume h: "childIndex (hoveredParent st) = Some k \<and> 0 \<le> k \<and> k \<le> int (length ?kids)"
  then have kk: "k0 = k" using k0 by simp
  have "nat k \<le> length ?kids" using h by linarith
  then have len: "length (take (nat k) ?kids) = nat k" by simp
  have split: "length (filter ?D (take (nat k) ?kids)) + length (filter (\<lambda>c. \<not> ?D c) (take (nat k) ?kids)) = nat k"
    using sum_length_filter_compl [of ?D "take (nat k) ?kids"] len by simp
  have "filter (\<lambda>c. \<not> ?D c) ?kids =
      filter (\<lambda>c. \<not> ?D c) (take (nat k) ?kids) @ filter (\<lambda>c. \<not> ?D c) (drop (nat k) ?kids)"
    by (metis append_take_drop_id filter_append)
  then have up: "length (filter (\<lambda>c. \<not> ?D c) (take (nat k) ?kids)) \<le> length (DragEndPayload.children p)"
    unfolding ch by simp
  show "0 \<le> insertAt p" unfolding ia kk using split h by linarith
  show "insertAt p \<le> int (length (DragEndPayload.children p))"
    unfolding ia kk using split up h by linarith
qed

theorem payload_well_formed_witness:
  "spec_uniqueIds fiveTree \<and>
   dragEndPayload (nodesOf fiveTree) (internalRootOf fiveTree) True dropC0After3 =
     Some (Some payloadC0After3) \<and>
   childIndex (hoveredParent dropC0After3) = Some 4 \<and>
   (4::int) \<le> int (length (kidsOf (DragEndPayload.parent payloadC0After3))) \<and>
   items payloadC0After3 \<noteq> [] \<and>
   set (items payloadC0After3) \<inter> set (DragEndPayload.children payloadC0After3) = {} \<and>
   0 \<le> insertAt payloadC0After3 \<and>
   insertAt payloadC0After3 \<le> int (length (DragEndPayload.children payloadC0After3))"
proof -
  have u: "spec_uniqueIds fiveTree" by code_simp
  have e: "dragEndPayload (nodesOf fiveTree) (internalRootOf fiveTree) True dropC0After3 =
      Some (Some payloadC0After3)" by code_simp
  have k: "childIndex (hoveredParent dropC0After3) = Some 4" by (simp add: dropC0After3_def)
  have b: "(0::int) \<le> 4" "(4::int) \<le> int (length (kidsOf (DragEndPayload.parent payloadC0After3)))"
    by (simp_all add: payloadC0After3_def fiveTree_def kidsOf_def)
  from payload_well_formed [OF u, of True dropC0After3] e k b
  have "items payloadC0After3 \<noteq> [] \<and>
      set (items payloadC0After3) \<inter> set (DragEndPayload.children payloadC0After3) = {} \<and>
      0 \<le> insertAt payloadC0After3 \<and>
      insertAt payloadC0After3 \<le> int (length (DragEndPayload.children payloadC0After3))"
    by blast
  then show ?thesis using u e k b by blast
qed

end
